theory Spec2Isabelle
  imports
    Main
    "HOL-Library.Char_ord"
    "HOL-Library.List_Lexorder"
    "HOL-Library.AList"
    "HOL-Library.Multiset"
begin

section \<open>Substitution sets of BNF codes\<close>

text \<open>
  A shallow embedding of \<^verbatim>\<open>frontend/price_per_unit/substitution_sets.py\<close>.

  A Python \<^verbatim>\<open>str\<close> is a \<^typ>\<open>string\<close>: one \<^typ>\<open>char\<close> stands for one code point
  below 256. Strings are compared as Python compares them, code point by code point
  (the order of \<^typ>\<open>char\<close> is that of its code, the order of lists is lexicographic).
  \<^verbatim>\<open>None\<close> is \<^const>\<open>None\<close>, an exception is the left summand of a sum.
\<close>

subsection \<open>Strings and dicts\<close>

text \<open>\<^verbatim>\<open>s[i:j]\<close> for \<open>0 \<le> i \<le> j\<close>: Python clips a slice to the string.\<close>

definition slice :: "nat \<Rightarrow> nat \<Rightarrow> string \<Rightarrow> string" where
  "slice i j s = take (j - i) (drop i s)"

text \<open>
  \<^verbatim>\<open>str.isspace\<close> on one code point below 256: the characters that
  \<^verbatim>\<open>str.strip()\<close> removes.
\<close>

definition is_space :: "char \<Rightarrow> bool" where
  "is_space c =
     (let n = (of_char c :: nat)
      in (9 \<le> n \<and> n \<le> 13) \<or> (28 \<le> n \<and> n \<le> 32) \<or> n = 133 \<or> n = 160)"

definition strip :: "string \<Rightarrow> string" where
  "strip s = rev (dropWhile is_space (rev (dropWhile is_space s)))"

text \<open>\<^verbatim>\<open>d.get(k, default)\<close> on a dict that is a map.\<close>

definition dict_get :: "('k \<rightharpoonup> 'v) \<Rightarrow> 'k \<Rightarrow> 'v \<Rightarrow> 'v" where
  "dict_get d k dflt = (case d k of None \<Rightarrow> dflt | Some v \<Rightarrow> v)"

text \<open>\<^verbatim>\<open>sep.join(xs)\<close>\<close>

fun join :: "string \<Rightarrow> string list \<Rightarrow> string" where
  "join sep [] = []"
| "join sep [x] = x"
| "join sep (x # y # ys) = x @ sep @ join sep (y # ys)"

subsection \<open>The exclusion patterns\<close>

text \<open>
  \<^verbatim>\<open>EXCLUSIONS_RE\<close> is one alternation of twenty patterns, compiled with
  \<^verbatim>\<open>re.VERBOSE\<close> (white space and comments are not part of a pattern). A pattern
  is a sequence of literal characters, of \<^verbatim>\<open>.\<close> (any character but a newline) and,
  in one pattern, of \<^verbatim>\<open>.*\<close>.
\<close>

datatype re_tok = Lit char | Dot | DotStar

fun tokens :: "string \<Rightarrow> re_tok list" where
  "tokens [] = []"
| "tokens [c] = (if c = CHR ''.'' then [Dot] else [Lit c])"
| "tokens (c # d # ds) =
     (if c = CHR ''.'' then
        (if d = CHR ''*'' then DotStar # tokens ds else Dot # tokens (d # ds))
      else Lit c # tokens (d # ds))"

definition EXCLUSIONS_RE :: "re_tok list list" where
  "EXCLUSIONS_RE = map tokens
     [''0302000C0....BE'',
      ''0302000C0....BF'',
      ''0302000C0....BH'',
      ''0302000C0....BG'',
      ''0904010H0.*'',
      ''1311070S0....AA'',
      ''1311020L0....BS'',
      ''0301020S0....AA'',
      ''190700000BBCJA0'',
      ''0604011L0BGAAAH'',
      ''1502010J0....BY'',
      ''1201010F0AAAAAA'',
      ''0107010S0AAAGAG'',
      ''060016000BBAAA0'',
      ''190201000AABJBJ'',
      ''190201000AABKBK'',
      ''190201000AABLBL'',
      ''190201000AABMBM'',
      ''190201000AABNBN'',
      ''190202000AAADAD'']"

text \<open>
  \<^verbatim>\<open>pattern.match(s)\<close> for one alternative: the pattern matches a prefix of \<open>s\<close>;
  what follows the matched prefix is not looked at.
\<close>

fun match_toks :: "re_tok list \<Rightarrow> string \<Rightarrow> bool" where
  "match_toks [] s = True"
| "match_toks (Lit c # ts) [] = False"
| "match_toks (Lit c # ts) (x # xs) = (x = c \<and> match_toks ts xs)"
| "match_toks (Dot # ts) [] = False"
| "match_toks (Dot # ts) (x # xs) = (x \<noteq> CHR 0x0A \<and> match_toks ts xs)"
| "match_toks (DotStar # ts) [] = match_toks ts []"
| "match_toks (DotStar # ts) (x # xs) =
     (match_toks ts (x # xs) \<or> (x \<noteq> CHR 0x0A \<and> match_toks (DotStar # ts) xs))"

text \<open>\<^verbatim>\<open>EXCLUSIONS_RE.match(s)\<close> is not \<^verbatim>\<open>None\<close>: some alternative matches.\<close>

definition re_match :: "re_tok list list \<Rightarrow> string \<Rightarrow> bool" where
  "re_match alternatives s = list_ex (\<lambda>p. match_toks p s) alternatives"

subsection \<open>The code classifier\<close>

definition GENERIC_SUB_PARAGRAPHS :: "(string \<times> string) list" where
  "GENERIC_SUB_PARAGRAPHS =
     [(''0601060U0'', ''Urine Testing Reagents''),
      (''0601060D0'', ''Glucose Blood Testing Reagents'')]"

definition generic_equivalent_for_bnf_code :: "string \<Rightarrow> string option" where
  "generic_equivalent_for_bnf_code bnf_code =
     (if length bnf_code \<noteq> 15 then None
      else if re_match EXCLUSIONS_RE bnf_code then None
      else
        let sub_paragraph_and_chemical = slice 0 9 bnf_code;
            generic_strength_and_formulation = slice 13 15 bnf_code;
            has_generic_equivalent = (generic_strength_and_formulation \<noteq> ''A0'')
        in if has_generic_equivalent
              \<or> map_of GENERIC_SUB_PARAGRAPHS sub_paragraph_and_chemical \<noteq> None
           then Some (sub_paragraph_and_chemical @ ''AA''
                      @ generic_strength_and_formulation
                      @ generic_strength_and_formulation)
           else None)"

subsection \<open>The equivalence merger\<close>

datatype py_error = AssertionError | IndexError

text \<open>
  \<^verbatim>\<open>groups_from_pairs\<close> keeps a dict \<^verbatim>\<open>groups\<close> from an element to a list object,
  extends list objects in place and compares them by identity (\<^verbatim>\<open>is not\<close>). The
  list objects live in a store: \<open>heap\<close> maps an address to the contents of the list
  object at that address, \<open>next_addr\<close> is the next unused address. The dict is an
  association list in insertion order, from an element to the address of its list.
\<close>

record 'a groups_state =
  heap :: "nat \<Rightarrow> 'a list"
  next_addr :: nat
  groups :: "('a \<times> nat) list"

definition init_state :: "'a groups_state" where
  "init_state = \<lparr>heap = (\<lambda>_. []), next_addr = 0, groups = []\<rparr>"

text \<open>A list display \<^verbatim>\<open>[x]\<close> creates a new list object.\<close>

definition alloc :: "'a list \<Rightarrow> 'a groups_state \<Rightarrow> nat \<times> 'a groups_state" where
  "alloc xs s =
     (next_addr s, s\<lparr>heap := (heap s)(next_addr s := xs), next_addr := Suc (next_addr s)\<rparr>)"

text \<open>\<^verbatim>\<open>d.setdefault(k, v)\<close>: the value of the key, which becomes \<open>v\<close> when absent.\<close>

definition setdefault :: "'k \<Rightarrow> 'v \<Rightarrow> ('k \<times> 'v) list \<Rightarrow> 'v \<times> ('k \<times> 'v) list" where
  "setdefault k v d =
     (case map_of d k of Some g \<Rightarrow> (g, d) | None \<Rightarrow> (v, AList.update k v d))"

text \<open>\<^verbatim>\<open>for member in other_grp: groups[member] = grp\<close>\<close>

definition repoint :: "'a list \<Rightarrow> nat \<Rightarrow> ('a \<times> nat) list \<Rightarrow> ('a \<times> nat) list" where
  "repoint members grp d = foldl (\<lambda>d member. AList.update member grp d) d members"

text \<open>The body of the first loop, for one pair.\<close>

definition merge_pair :: "'a groups_state \<Rightarrow> 'a \<times> 'a \<Rightarrow> 'a groups_state" where
  "merge_pair s p =
     (case p of (element, other_element) \<Rightarrow>
        let (fresh, s1) = alloc [element] s;
            (grp, d) = setdefault element fresh (groups s1);
            s2 = s1\<lparr>groups := d\<rparr>;
            (other_fresh, s3) = alloc [other_element] s2;
            other_grp = (case map_of (groups s3) other_element of
                             Some g \<Rightarrow> g | None \<Rightarrow> other_fresh)
        in if other_grp \<noteq> grp then
             let members = heap s3 other_grp;
                 s4 = s3\<lparr>heap := (heap s3)(grp := heap s3 grp @ members)\<rparr>
             in s4\<lparr>groups := repoint members grp (groups s4)\<rparr>
           else s3)"

text \<open>
  The second loop: \<^verbatim>\<open>group[0]\<close> raises \<^verbatim>\<open>IndexError\<close> on an empty list. The
  generator's values are collected in a list.
\<close>

fun yield_groups :: "(nat \<Rightarrow> 'a list) \<Rightarrow> ('a \<times> nat) list \<Rightarrow> py_error + 'a list list" where
  "yield_groups h [] = Inr []"
| "yield_groups h ((element, grp) # items) =
     (case h grp of
        [] \<Rightarrow> Inl IndexError
      | first # _ \<Rightarrow>
          (case yield_groups h items of
             Inl e \<Rightarrow> Inl e
           | Inr rest \<Rightarrow> Inr (if element = first then h grp # rest else rest)))"

definition groups_from_pairs :: "('a \<times> 'a) list \<Rightarrow> py_error + 'a list list" where
  "groups_from_pairs pairs =
     (let s = foldl merge_pair init_state pairs in yield_groups (heap s) (groups s))"

subsection \<open>The swap table loader\<close>

text \<open>
  The formulation swaps file is read with \<^verbatim>\<open>csv.DictReader\<close>; the model starts
  from its result, \<^verbatim>\<open>data\<close>: one row per line of the file, with a string in each of
  the five columns the code reads. Assertions are enabled.
\<close>

record swap_row =
  Code :: string
  Alternative_code :: string
  Formulation :: string
  Alternative_formulation :: string
  Really_equivalent :: string

text \<open>
  The loop over the rows: \<^verbatim>\<open>code_pairs\<close> grows at its end, \<^verbatim>\<open>formulations\<close> is a
  dict that is only read with \<^verbatim>\<open>get\<close>. A failed \<^verbatim>\<open>assert\<close> ends the loop.
\<close>

fun read_rows ::
  "swap_row list \<Rightarrow> (string \<times> string) list \<Rightarrow> (string \<rightharpoonup> string)
     \<Rightarrow> py_error + ((string \<times> string) list \<times> (string \<rightharpoonup> string))" where
  "read_rows [] code_pairs formulations = Inr (code_pairs, formulations)"
| "read_rows (row # data) code_pairs formulations =
     (if strip (Really_equivalent row) \<noteq> ''Y'' then read_rows data code_pairs formulations
      else
        let code = strip (Code row);
            alternative_code = strip (Alternative_code row)
        in if Some code \<noteq> generic_equivalent_for_bnf_code code then Inl AssertionError
           else if Some alternative_code \<noteq> generic_equivalent_for_bnf_code alternative_code
             then Inl AssertionError
           else if \<not> code \<noteq> alternative_code then Inl AssertionError
           else read_rows data (code_pairs @ [(code, alternative_code)])
                  (formulations
                     (code \<mapsto> strip (Formulation row),
                      alternative_code \<mapsto> strip (Alternative_formulation row))))"

text \<open>
  \<^verbatim>\<open>[f for f in set(map(formulations.get, code_group)) if f]\<close>: the distinct values,
  without \<^verbatim>\<open>None\<close> and without the empty string. Python leaves the order of a set
  open; the model takes the order of first occurrence. The caller looks at the length
  of this list and at its sorted form only.
\<close>

definition formulations_for_group :: "(string \<rightharpoonup> string) \<Rightarrow> string list \<Rightarrow> string list" where
  "formulations_for_group formulations code_group =
     concat (map (\<lambda>f. case f of None \<Rightarrow> [] | Some l \<Rightarrow> (if l = [] then [] else [l]))
               (remdups (map formulations code_group)))"

definition read_formulation_swaps_file ::
  "swap_row list \<Rightarrow> py_error + (string list \<times> string list) list" where
  "read_formulation_swaps_file data =
     (case read_rows data [] Map.empty of
        Inl e \<Rightarrow> Inl e
      | Inr (code_pairs, formulations) \<Rightarrow>
          (case groups_from_pairs code_pairs of
             Inl e \<Rightarrow> Inl e
           | Inr code_groups \<Rightarrow>
               Inr (map (\<lambda>code_group.
                          (code_group, formulations_for_group formulations code_group))
                      code_groups)))"

text \<open>\<^verbatim>\<open>for code in codes: swaps[code] = primary_code\<close>\<close>

definition set_primary ::
  "string list \<Rightarrow> string \<Rightarrow> (string \<rightharpoonup> string) \<Rightarrow> (string \<rightharpoonup> string)" where
  "set_primary codes primary_code swaps =
     foldl (\<lambda>swaps code. swaps(code \<mapsto> primary_code)) swaps codes"

text \<open>
  The loop of \<^verbatim>\<open>get_formulation_swaps\<close>; \<^verbatim>\<open>sorted(codes)[0]\<close> raises
  \<^verbatim>\<open>IndexError\<close> on an empty group.
\<close>

fun swaps_loop ::
  "(string list \<times> string list) list \<Rightarrow> (string \<rightharpoonup> string) \<Rightarrow> (string \<rightharpoonup> string)
     \<Rightarrow> py_error + ((string \<rightharpoonup> string) \<times> (string \<rightharpoonup> string))" where
  "swaps_loop [] swaps swap_descriptions = Inr (swaps, swap_descriptions)"
| "swaps_loop ((codes, formulations) # rest) swaps swap_descriptions =
     (case sort codes of
        [] \<Rightarrow> Inl IndexError
      | primary_code # _ \<Rightarrow>
          swaps_loop rest (set_primary codes primary_code swaps)
            (if length formulations > 1
             then swap_descriptions(primary_code \<mapsto> join '' / '' (sort formulations))
             else swap_descriptions))"

definition get_formulation_swaps ::
  "swap_row list \<Rightarrow> py_error + ((string \<rightharpoonup> string) \<times> (string \<rightharpoonup> string))" where
  "get_formulation_swaps data =
     (case read_formulation_swaps_file data of
        Inl e \<Rightarrow> Inl e
      | Inr code_groups \<Rightarrow> swaps_loop code_groups Map.empty Map.empty)"

subsection \<open>The substitution set builder\<close>

record SubstitutionSet =
  id' :: string
  presentations :: "string list"
  name :: string
  formulation_swaps :: "string option"

text \<open>
  \<^verbatim>\<open>presentation_sets[generic_code].append(bnf_code)\<close> on a
  \<^verbatim>\<open>defaultdict(list)\<close>, an association list in insertion order.
\<close>

definition append_to ::
  "string \<Rightarrow> string \<Rightarrow> (string \<times> string list) list \<Rightarrow> (string \<times> string list) list" where
  "append_to k v d =
     AList.update k ((case map_of d k of None \<Rightarrow> [] | Some xs \<Rightarrow> xs) @ [v]) d"

text \<open>The loop over \<^verbatim>\<open>bnf_codes\<close>; \<^verbatim>\<open>if generic_code\<close> is false for
  \<^verbatim>\<open>None\<close> and for the empty string.\<close>

fun collect ::
  "(string \<rightharpoonup> string) \<Rightarrow> string list \<Rightarrow> (string \<times> string list) list
     \<Rightarrow> (string \<times> string list) list" where
  "collect swaps [] presentation_sets = presentation_sets"
| "collect swaps (bnf_code # bnf_codes) presentation_sets =
     (case generic_equivalent_for_bnf_code bnf_code of
        None \<Rightarrow> collect swaps bnf_codes presentation_sets
      | Some generic_code \<Rightarrow>
          if generic_code = [] then collect swaps bnf_codes presentation_sets
          else collect swaps bnf_codes
                 (append_to (dict_get swaps generic_code generic_code) bnf_code
                    presentation_sets))"

text \<open>
  \<^verbatim>\<open>Presentation.names_for_bnf_codes\<close> belongs to the storage layer: it is the
  parameter \<open>names_for_bnf_codes\<close>.
\<close>

definition get_names_for_bnf_codes ::
  "(string list \<Rightarrow> (string \<rightharpoonup> string)) \<Rightarrow> string list \<Rightarrow> (string \<rightharpoonup> string)" where
  "get_names_for_bnf_codes names_for_bnf_codes bnf_codes =
     foldl (\<lambda>names (sub_para, name). names(sub_para @ ''AAA0A0'' \<mapsto> name))
       (names_for_bnf_codes bnf_codes) GENERIC_SUB_PARAGRAPHS"

definition get_substitution_sets_from_bnf_codes ::
  "swap_row list \<Rightarrow> (string list \<Rightarrow> (string \<rightharpoonup> string)) \<Rightarrow> string list
     \<Rightarrow> py_error + SubstitutionSet list" where
  "get_substitution_sets_from_bnf_codes data names_for_bnf_codes bnf_codes =
     (case get_formulation_swaps data of
        Inl e \<Rightarrow> Inl e
      | Inr (swaps, swap_descriptions) \<Rightarrow>
          let presentation_sets = collect swaps bnf_codes [];
              names = get_names_for_bnf_codes names_for_bnf_codes (map fst presentation_sets)
          in Inr (map (\<lambda>(code, presentations).
                        \<lparr>id' = code,
                         presentations = sort presentations,
                         name = dict_get names code ''unknown'',
                         formulation_swaps = swap_descriptions code\<rparr>)
                    (filter (\<lambda>(code, presentations). length presentations > 1)
                       presentation_sets)))"

section \<open>Notions of the statements and of the proofs\<close>

subsection \<open>Connected components\<close>

text \<open>
  The pairs are the edges of an undirected graph on the elements that occur in them.
  \<open>conn E\<close> relates two elements joined by a path, \<open>components E\<close> is the set of
  the connected components.
\<close>

definition conn :: "('a \<times> 'a) set \<Rightarrow> ('a \<times> 'a) set" where
  "conn E = (E \<union> E\<inverse>)\<^sup>*"

definition components :: "('a \<times> 'a) set \<Rightarrow> 'a set set" where
  "components E = Field E // conn E"

subsection \<open>The state after one pair\<close>

text \<open>
  The values that the body of the first loop computes for a pair \<open>(a, b)\<close>: the address
  of the group of \<open>a\<close>, the dict after \<^verbatim>\<open>setdefault\<close>, the store after the two list
  displays, and the address of the group of \<open>b\<close>.
\<close>

definition grp_of :: "'a groups_state \<Rightarrow> 'a \<Rightarrow> nat" where
  "grp_of s a = (case map_of (groups s) a of Some g \<Rightarrow> g | None \<Rightarrow> next_addr s)"

definition dict1 :: "'a groups_state \<Rightarrow> 'a \<Rightarrow> 'a \<rightharpoonup> nat" where
  "dict1 s a = (if map_of (groups s) a = None then (map_of (groups s))(a \<mapsto> next_addr s)
                else map_of (groups s))"

definition heap1 :: "'a groups_state \<Rightarrow> 'a \<Rightarrow> 'a \<Rightarrow> nat \<Rightarrow> 'a list" where
  "heap1 s a b = (heap s)(next_addr s := [a], Suc (next_addr s) := [b])"

definition other_of :: "'a groups_state \<Rightarrow> 'a \<Rightarrow> 'a \<Rightarrow> nat" where
  "other_of s a b = (case dict1 s a b of Some g \<Rightarrow> g | None \<Rightarrow> Suc (next_addr s))"

text \<open>
  The invariant of the first loop, \<open>E\<close> being the pairs seen so far: the keys of the dict
  are the elements seen, the list of an element holds its component, and the elements
  of one component share one list object.
\<close>

definition ginv :: "('a \<times> 'a) set \<Rightarrow> 'a groups_state \<Rightarrow> bool" where
  "ginv E s \<longleftrightarrow>
     distinct (map fst (groups s)) \<and>
     dom (map_of (groups s)) = Field E \<and>
     (\<forall>e g. map_of (groups s) e = Some g \<longrightarrow>
        g < next_addr s \<and> set (heap s g) = conn E `` {e} \<and>
        (\<forall>x. (e, x) \<in> conn E \<longrightarrow> map_of (groups s) x = Some g))"

subsection \<open>Groups of the merger\<close>

text \<open>
  What the body of the first loop fetches or creates for an element: the contents of its
  list object, or a new singleton list.
\<close>

definition fetch_or_create :: "'a groups_state \<Rightarrow> 'a \<Rightarrow> 'a list" where
  "fetch_or_create s x = (case map_of (groups s) x of Some g \<Rightarrow> heap s g | None \<Rightarrow> [x])"

text \<open>
  The merge as the specification words it: the elements of the smaller group are
  appended to the larger group.
\<close>

definition smaller_into_larger :: "'a list \<Rightarrow> 'a list \<Rightarrow> 'a list" where
  "smaller_into_larger ga gb = (if length gb \<le> length ga then ga @ gb else gb @ ga)"

subsection \<open>Rows, edges and labels of the swap table\<close>

text \<open>
  A row that the loop over the rows does not skip.
\<close>

definition accepted :: "swap_row \<Rightarrow> bool" where
  "accepted row \<longleftrightarrow> strip (Really_equivalent row) = ''Y''"

text \<open>
  A code that the classifier maps to itself.
\<close>

definition is_generic :: "string \<Rightarrow> bool" where
  "is_generic c \<longleftrightarrow> generic_equivalent_for_bnf_code c = Some c"

text \<open>
  The three assertions of the loop, on the trimmed codes of a row.
\<close>

definition valid_row :: "swap_row \<Rightarrow> bool" where
  "valid_row row \<longleftrightarrow>
     is_generic (strip (Code row)) \<and> is_generic (strip (Alternative_code row))
     \<and> strip (Code row) \<noteq> strip (Alternative_code row)"

text \<open>
  The pair that an accepted row adds to \<^verbatim>\<open>code_pairs\<close>.
\<close>

definition row_pair :: "swap_row \<Rightarrow> string \<times> string" where
  "row_pair row = (strip (Code row), strip (Alternative_code row))"

text \<open>
  The label that a row gives to a code: the row assigns the label of its code
  first and the label of its alternative code second.
\<close>

definition row_label :: "swap_row \<Rightarrow> string \<Rightarrow> string option" where
  "row_label row c =
     (if c = strip (Alternative_code row) then Some (strip (Alternative_formulation row))
      else if c = strip (Code row) then Some (strip (Formulation row))
      else None)"

text \<open>
  The label of a code after the loop: that of the last accepted row which names the
  code.
\<close>

definition last_label :: "swap_row list \<Rightarrow> string \<Rightarrow> string option" where
  "last_label data c =
     (case find (\<lambda>row. row_label row c \<noteq> None) (rev (filter accepted data)) of
        None \<Rightarrow> None
      | Some row \<Rightarrow> row_label row c)"

text \<open>
  The pairs of the accepted rows, as a set of edges.
\<close>

definition swap_edges :: "swap_row list \<Rightarrow> (string \<times> string) set" where
  "swap_edges data = set (map row_pair (filter accepted data))"

text \<open>
  The distinct non-empty labels of the members of a set of codes.
\<close>

definition labels_of :: "swap_row list \<Rightarrow> string set \<Rightarrow> string set" where
  "labels_of data codes = {l. l \<noteq> [] \<and> (\<exists>c \<in> codes. last_label data c = Some l)}"

text \<open>
  The two dicts of \<^verbatim>\<open>get_formulation_swaps\<close>, as functions of the edges and of the
  labels: a code of the graph is mapped to the smallest code of its component, and the
  smallest code of a component with more than one label to the sorted labels.
\<close>

definition swaps_of :: "swap_row list \<Rightarrow> string \<rightharpoonup> string" where
  "swaps_of data c =
     (if c \<in> Field (swap_edges data) then Some (Min (conn (swap_edges data) `` {c})) else None)"

definition descriptions_of :: "swap_row list \<Rightarrow> string \<rightharpoonup> string" where
  "descriptions_of data p =
     (if (\<exists>v. v \<in> Field (swap_edges data) \<and> Min (conn (swap_edges data) `` {v}) = p)
         \<and> 1 < card (labels_of data (conn (swap_edges data) `` {p}))
      then Some (join '' / '' (sorted_list_of_set (labels_of data (conn (swap_edges data) `` {p}))))
      else None)"

text \<open>
  What the swaps loop needs of one group: it is not empty, it is the class of each of its
  members, and its formulations are the distinct labels of its members.
\<close>

definition good_group ::
  "(string \<Rightarrow> string set) \<Rightarrow> (string set \<Rightarrow> string set) \<Rightarrow> string list \<times> string list \<Rightarrow> bool" where
  "good_group cls L g \<longleftrightarrow>
     fst g \<noteq> [] \<and> (\<forall>c \<in> set (fst g). set (fst g) = cls c)
     \<and> distinct (snd g) \<and> set (snd g) = L (set (fst g))"

subsection \<open>Keys and descriptions of the builder\<close>

text \<open>
  The key under which the builder files a BNF code: its generic code, remapped through
  \<^verbatim>\<open>swaps\<close>; none when the code has no generic equivalent.
\<close>

definition grouping_key :: "(string \<rightharpoonup> string) \<Rightarrow> string \<Rightarrow> string option" where
  "grouping_key swaps bnf_code =
     (case generic_equivalent_for_bnf_code bnf_code of
        None \<Rightarrow> None
      | Some generic_code \<Rightarrow>
          if generic_code = [] then None else Some (dict_get swaps generic_code generic_code))"

text \<open>
  The entry of \<^verbatim>\<open>swap_descriptions\<close> for a code, after a load of the swap table.
\<close>

definition description_for :: "swap_row list \<Rightarrow> string \<Rightarrow> py_error + string option" where
  "description_for data code =
     (case get_formulation_swaps data of
        Inl e \<Rightarrow> Inl e
      | Inr (swaps, swap_descriptions) \<Rightarrow> Inr (swap_descriptions code))"

text \<open>
  The labels of a group as the specification words them: every non-empty label that any
  accepted row attaches to a member of the group, through its formulation or its
  alternative formulation field.
\<close>

definition all_labels :: "swap_row list \<Rightarrow> string list \<Rightarrow> string list" where
  "all_labels data codes =
     remdups (filter (\<lambda>l. l \<noteq> [])
       (concat (map (\<lambda>row.
                  (if strip (Code row) \<in> set codes then [strip (Formulation row)] else [])
                  @ (if strip (Alternative_code row) \<in> set codes
                     then [strip (Alternative_formulation row)] else []))
                (filter accepted data))))"

section \<open>The code classifier: properties\<close>

text \<open>
  C2. For every string \<open>c\<close>, the classifier returns \<^verbatim>\<open>None\<close> when the length of
  \<open>c\<close> is not 15, and returns \<^verbatim>\<open>None\<close> when an exclusion pattern matches \<open>c\<close> at
  its start, whatever the suffix of \<open>c\<close> is. The classifier is a total function into
  \<^typ>\<open>string option\<close>: the exclusion is the value \<^const>\<open>None\<close>, not an exception.
\<close>

theorem generic_equivalent_excluded:
  "length c \<noteq> 15 \<or> re_match EXCLUSIONS_RE c
     \<Longrightarrow> generic_equivalent_for_bnf_code c = None"
  by (auto simp: generic_equivalent_for_bnf_code_def)

theorem generic_equivalent_excluded_witness:
  "re_match EXCLUSIONS_RE ''0302000C0AAABBE''
   \<and> generic_equivalent_for_bnf_code ''0302000C0AAABBE'' = None
   \<and> length ''0302000'' \<noteq> 15
   \<and> generic_equivalent_for_bnf_code ''0302000'' = None"
proof -
  have a: "re_match EXCLUSIONS_RE ''0302000C0AAABBE''"
    by (simp add: re_match_def EXCLUSIONS_RE_def)
  have b: "length ''0302000'' \<noteq> 15"
    by simp
  from a b generic_equivalent_excluded[of "''0302000C0AAABBE''"]
    generic_equivalent_excluded[of "''0302000''"]
  show ?thesis by blast
qed

text \<open>
  C3, as the specification states it: whenever the suffix \<open>c[13:15]\<close> is not \<open>A0\<close>,
  the classifier returns \<open>c[0:9] + AA + c[13:15] + c[13:15]\<close>. The code returns
  \<^verbatim>\<open>None\<close> first for a code whose length is not 15 and for an excluded code: the
  statement fails at the excluded code \<open>0302000C0AAABBE\<close> and at the short code
  \<open>0302000\<close>.
\<close>

theorem generic_equivalent_suffix_counterexample:
  "slice 13 15 ''0302000C0AAABBE'' \<noteq> ''A0''
   \<and> generic_equivalent_for_bnf_code ''0302000C0AAABBE''
       \<noteq> Some (slice 0 9 ''0302000C0AAABBE'' @ ''AA''
                 @ slice 13 15 ''0302000C0AAABBE'' @ slice 13 15 ''0302000C0AAABBE'')
   \<and> slice 13 15 ''0302000'' \<noteq> ''A0''
   \<and> generic_equivalent_for_bnf_code ''0302000''
       \<noteq> Some (slice 0 9 ''0302000'' @ ''AA'' @ slice 13 15 ''0302000'' @ slice 13 15 ''0302000'')"
  by (simp add: generic_equivalent_for_bnf_code_def re_match_def EXCLUSIONS_RE_def slice_def)

text \<open>
  C3, amended: for every code \<open>c\<close> of length 15 that no exclusion pattern matches and
  whose suffix \<open>c[13:15]\<close> is not \<open>A0\<close>, the classifier returns
  \<open>c[0:9] + AA + c[13:15] + c[13:15]\<close>.
\<close>

theorem generic_equivalent_suffix:
  "length c = 15 \<Longrightarrow> \<not> re_match EXCLUSIONS_RE c \<Longrightarrow> slice 13 15 c \<noteq> ''A0''
     \<Longrightarrow> generic_equivalent_for_bnf_code c
           = Some (slice 0 9 c @ ''AA'' @ slice 13 15 c @ slice 13 15 c)"
  by (simp add: generic_equivalent_for_bnf_code_def Let_def)

theorem generic_equivalent_suffix_witness:
  "length ''040702040BBACAC'' = 15 \<and> \<not> re_match EXCLUSIONS_RE ''040702040BBACAC''
   \<and> slice 13 15 ''040702040BBACAC'' \<noteq> ''A0''
   \<and> generic_equivalent_for_bnf_code ''040702040BBACAC'' = Some ''040702040AAACAC''"
proof -
  have a: "length ''040702040BBACAC'' = 15"
    by simp
  have b: "\<not> re_match EXCLUSIONS_RE ''040702040BBACAC''"
    by (simp add: re_match_def EXCLUSIONS_RE_def)
  have c: "slice 13 15 ''040702040BBACAC'' \<noteq> ''A0''"
    by (simp add: slice_def)
  from generic_equivalent_suffix[OF a b c] a b c show ?thesis
    by (simp add: slice_def)
qed

section \<open>The equivalence merger: properties\<close>

subsection \<open>Paths\<close>

lemma conn_refl: "(x, x) \<in> conn E"
  by (simp add: conn_def)

lemma conn_sym: "(x, y) \<in> conn E \<Longrightarrow> (y, x) \<in> conn E"
  unfolding conn_def
  by (metis converse_Un converse_converse rtrancl_converseI sup_commute)

lemma conn_trans: "(x, y) \<in> conn E \<Longrightarrow> (y, z) \<in> conn E \<Longrightarrow> (x, z) \<in> conn E"
  unfolding conn_def by (rule rtrancl_trans)

lemma conn_mono: "E \<subseteq> E' \<Longrightarrow> conn E \<subseteq> conn E'"
  unfolding conn_def by (intro rtrancl_mono) auto

lemma conn_edge: "(a, b) \<in> E \<Longrightarrow> (a, b) \<in> conn E"
  unfolding conn_def by auto

lemma conn_isolated: "x \<notin> Field E \<Longrightarrow> (x, y) \<in> conn E \<Longrightarrow> y = x"
  unfolding conn_def
  by (erule converse_rtranclE) (auto simp: Field_def)

lemma conn_insert_cases:
  assumes "(x, y) \<in> conn (insert (a, b) E)"
  shows "(x, y) \<in> conn E \<or>
         (((x, a) \<in> conn E \<or> (x, b) \<in> conn E) \<and> ((y, a) \<in> conn E \<or> (y, b) \<in> conn E))"
  using assms unfolding conn_def
proof (induction rule: rtrancl_induct)
  case base
  then show ?case by simp
next
  case (step y z)
  from step.hyps(2) have "(y, z) \<in> conn E \<or> (y = a \<and> z = b) \<or> (y = b \<and> z = a)"
    by (auto simp: conn_def)
  with step.IH show ?case
    unfolding conn_def[symmetric]
    by (meson conn_refl conn_sym conn_trans)
qed

lemma conn_insert_iff:
  "(x, y) \<in> conn (insert (a, b) E) \<longleftrightarrow>
     (x, y) \<in> conn E \<or>
     (((x, a) \<in> conn E \<or> (x, b) \<in> conn E) \<and> ((y, a) \<in> conn E \<or> (y, b) \<in> conn E))"
  (is "?L \<longleftrightarrow> ?R")
proof
  assume ?L
  then show ?R by (rule conn_insert_cases)
next
  assume r: ?R
  have sub: "\<And>u v. (u, v) \<in> conn E \<Longrightarrow> (u, v) \<in> conn (insert (a, b) E)"
    using conn_mono[of E "insert (a, b) E"] by auto
  have ab: "(a, b) \<in> conn (insert (a, b) E)"
    by (rule conn_edge) simp
  from r sub ab show ?L
    by (meson conn_sym conn_trans)
qed

lemma conn_insert_Image:
  "conn (insert (a, b) E) `` {x} =
     (if x \<in> conn E `` {a} \<union> conn E `` {b} then conn E `` {a} \<union> conn E `` {b}
      else conn E `` {x})"
proof (cases "x \<in> conn E `` {a} \<union> conn E `` {b}")
  case True
  then have x: "(x, a) \<in> conn E \<or> (x, b) \<in> conn E"
    by (auto dest: conn_sym)
  have "\<And>y. (x, y) \<in> conn (insert (a, b) E) \<longleftrightarrow> (y, a) \<in> conn E \<or> (y, b) \<in> conn E"
    unfolding conn_insert_iff using x by (meson conn_sym conn_trans)
  then show ?thesis using True by (auto dest: conn_sym)
next
  case False
  then have x: "(x, a) \<notin> conn E" "(x, b) \<notin> conn E"
    by (auto dest: conn_sym)
  then show ?thesis using False by (auto simp: conn_insert_iff)
qed


subsection \<open>One pass of the first loop\<close>

lemma map_of_repoint:
  "map_of (repoint ms g d) x = (if x \<in> set ms then Some g else map_of d x)"
  unfolding repoint_def by (induction ms arbitrary: d) (auto simp: update_conv')

lemma distinct_repoint:
  "distinct (map fst d) \<Longrightarrow> distinct (map fst (repoint ms g d))"
  unfolding repoint_def by (induction ms arbitrary: d) (auto simp: distinct_update)

lemma merge_pair_unfold:
  "merge_pair s (a, b) =
     (if other_of s a b \<noteq> grp_of s a
      then s\<lparr>heap := (heap1 s a b)(grp_of s a := heap1 s a b (grp_of s a) @ heap1 s a b (other_of s a b)),
             next_addr := Suc (Suc (next_addr s)),
             groups := repoint (heap1 s a b (other_of s a b)) (grp_of s a)
                         (snd (setdefault a (next_addr s) (groups s)))\<rparr>
      else s\<lparr>heap := heap1 s a b, next_addr := Suc (Suc (next_addr s)),
             groups := snd (setdefault a (next_addr s) (groups s))\<rparr>)"
  by (cases "map_of (groups s) a"; cases "map_of (groups s) b"; cases "a = b")
     (simp_all add: merge_pair_def alloc_def setdefault_def Let_def grp_of_def dict1_def heap1_def
      other_of_def update_conv')


lemma map_of_setdefault: "map_of (snd (setdefault a (next_addr s) (groups s))) = dict1 s a"
  by (auto simp: setdefault_def dict1_def update_conv' split: option.splits)

lemma distinct_setdefault:
  "distinct (map fst d) \<Longrightarrow> distinct (map fst (snd (setdefault k v d)))"
  by (auto simp: setdefault_def distinct_update split: option.splits)

subsection \<open>The invariant\<close>

lemma ginv_init: "ginv {} init_state"
  by (simp add: ginv_def init_state_def)

lemma ginv_merge_pair:
  assumes "ginv E s"
  shows "ginv (insert (a, b) E) (merge_pair s (a, b))"
proof -
  let ?m = "map_of (groups s)" and ?n = "next_addr s" and ?h = "heap s"
  let ?ga = "grp_of s a" and ?gb = "other_of s a b"
  let ?m1 = "dict1 s a" and ?h1 = "heap1 s a b"
  let ?Ca = "conn E `` {a}" and ?Cb = "conn E `` {b}"
  let ?E' = "insert (a, b) E"
  let ?s' = "merge_pair s (a, b)"
  from assms have dist: "distinct (map fst (groups s))"
    and dom: "dom ?m = Field E"
    and lt: "\<And>e g. ?m e = Some g \<Longrightarrow> g < ?n"
    and cls: "\<And>e g. ?m e = Some g \<Longrightarrow> set (?h g) = conn E `` {e}"
    and share: "\<And>e g x. ?m e = Some g \<Longrightarrow> (e, x) \<in> conn E \<Longrightarrow> ?m x = Some g"
    by (auto simp: ginv_def)
  have iso: "conn E `` {x} = {x}" if "?m x = None" for x
  proof -
    from that dom have "x \<notin> Field E" by auto
    then show ?thesis using conn_isolated[of x E] conn_refl[of x E] by auto
  qed
  have m1a: "?m1 a = Some ?ga"
    by (auto simp: dict1_def grp_of_def split: option.splits)
  have m1_cases: "?m e = Some g \<or> (e = a \<and> ?m a = None \<and> g = ?n)" if "?m1 e = Some g" for e g
    using that by (auto simp: dict1_def split: if_splits)
  have m1_ext: "?m1 e = Some g" if "?m e = Some g" for e g
    using that by (auto simp: dict1_def)
  have h1_old: "?h1 g = ?h g" if "g < ?n" for g
    using that by (simp add: heap1_def)
  have h1_n: "?h1 ?n = [a]" and h1_Sn: "?h1 (Suc ?n) = [b]"
    by (simp_all add: heap1_def)
  have m1_lt: "g < Suc ?n" if "?m1 e = Some g" for e g
    using m1_cases[OF that] lt by (auto intro: less_SucI)
  have m1_cls: "set (?h1 g) = conn E `` {e}" if "?m1 e = Some g" for e g
  proof -
    from m1_cases[OF that] show ?thesis
    proof
      assume *: "?m e = Some g"
      then show ?thesis using cls[OF *] lt[OF *] h1_old by simp
    next
      assume "e = a \<and> ?m a = None \<and> g = ?n"
      then show ?thesis using iso[of a] h1_n by simp
    qed
  qed
  have m1_share: "?m1 x = Some g" if "?m1 e = Some g" "(e, x) \<in> conn E" for e g x
  proof -
    from m1_cases[OF that(1)] show ?thesis
    proof
      assume "?m e = Some g"
      then show ?thesis using share that(2) m1_ext by blast
    next
      assume *: "e = a \<and> ?m a = None \<and> g = ?n"
      with iso that(2) have "x = a" by auto
      with * that(1) show ?thesis by simp
    qed
  qed
  have dom1: "dom ?m1 = insert a (Field E)"
    using dom by (auto simp: dict1_def split: if_splits)
  have in_Ca: "?m1 e = Some ?ga \<longleftrightarrow> e \<in> ?Ca" for e
  proof
    assume "?m1 e = Some ?ga"
    from m1_cls[OF this] m1_cls[OF m1a] conn_refl[of e E] show "e \<in> ?Ca" by auto
  next
    assume "e \<in> ?Ca"
    then show "?m1 e = Some ?ga" using m1_share[OF m1a] by auto
  qed
  have gb_cls: "set (?h1 ?gb) = ?Cb"
  proof (cases "?m1 b")
    case None
    then have "?m b = None" by (auto simp: dict1_def split: if_splits)
    with None iso h1_Sn show ?thesis by (simp add: other_of_def)
  next
    case (Some g)
    with m1_cls[OF Some] show ?thesis by (simp add: other_of_def)
  qed
  have gb_lt: "?gb < Suc (Suc ?n)"
    using m1_lt by (auto simp: other_of_def split: option.splits intro: less_SucI)
  have Cb_sub: "?Cb \<subseteq> insert b (Field E)"
  proof
    fix x assume "x \<in> ?Cb"
    then have bx: "(b, x) \<in> conn E" by simp
    show "x \<in> insert b (Field E)"
      using conn_isolated[OF _ conn_sym[OF bx]] by auto
  qed
  have same_iff: "?gb = ?ga \<longleftrightarrow> (a, b) \<in> conn E"
  proof
    assume "?gb = ?ga"
    with gb_cls m1_cls[OF m1a] have "?Cb = ?Ca" by simp
    with conn_refl[of b E] show "(a, b) \<in> conn E" by auto
  next
    assume "(a, b) \<in> conn E"
    with in_Ca[of b] have "?m1 b = Some ?ga" by auto
    then show "?gb = ?ga" by (simp add: other_of_def)
  qed
  have Field': "Field ?E' = insert a (insert b (Field E))"
    by auto
  have dist': "distinct (map fst (groups ?s'))"
    using dist by (simp add: merge_pair_unfold distinct_repoint distinct_setdefault)
  have next': "next_addr ?s' = Suc (Suc ?n)"
    by (simp add: merge_pair_unfold)
  show ?thesis
  proof (cases "(a, b) \<in> conn E")
    case True
    with same_iff have eq: "?gb = ?ga" by simp
    then have heap': "heap ?s' = ?h1" and dict': "map_of (groups ?s') = ?m1"
      by (simp_all add: merge_pair_unfold map_of_setdefault)
    have conn': "(x, y) \<in> conn ?E' \<longleftrightarrow> (x, y) \<in> conn E" for x y
      unfolding conn_insert_iff using True by (meson conn_sym conn_trans)
    have cls': "conn ?E' `` {x} = conn E `` {x}" for x
      using conn' by auto
    have "b = a \<or> b \<in> Field E"
      using True conn_isolated[of b E a] conn_sym[OF True] by auto
    with dom1 have "dom ?m1 = Field ?E'" unfolding Field' by auto
    then have dom': "dom ?m1 = Field ?E'" .
    have main: "g < Suc (Suc ?n) \<and> set (?h1 g) = conn ?E' `` {e} \<and>
                (\<forall>x. (e, x) \<in> conn ?E' \<longrightarrow> ?m1 x = Some g)"
      if "?m1 e = Some g" for e g
      unfolding cls' conn'
      using m1_lt[OF that] m1_cls[OF that] m1_share[OF that] by (simp add: less_SucI)
    show ?thesis
      unfolding ginv_def heap' dict' next'
      using dist' dom' main by blast
  next
    case False
    with same_iff have ne: "?gb \<noteq> ?ga" by simp
    let ?m' = "\<lambda>x. if x \<in> ?Cb then Some ?ga else ?m1 x"
    let ?h' = "?h1(?ga := ?h1 ?ga @ ?h1 ?gb)"
    from ne have heap': "heap ?s' = ?h'"
      by (simp add: merge_pair_unfold)
    from ne have dict': "map_of (groups ?s') = ?m'"
      by (auto simp: merge_pair_unfold map_of_repoint map_of_setdefault gb_cls fun_eq_iff)
    have ga_set: "set (?h' ?ga) = ?Ca \<union> ?Cb"
      using m1_cls[OF m1a] gb_cls by simp
    have in_union: "?m' e = Some ?ga \<longleftrightarrow> e \<in> ?Ca \<union> ?Cb" for e
      using in_Ca[of e] by auto
    have dom': "dom ?m' = Field ?E'"
    proof -
      have "dom ?m' = ?Cb \<union> dom ?m1"
        by (auto split: if_splits)
      moreover have "b \<in> ?Cb" using conn_refl[of b E] by simp
      ultimately show ?thesis
        unfolding Field' dom1 using Cb_sub by blast
    qed
    have main: "g < Suc (Suc ?n) \<and> set (?h' g) = conn ?E' `` {e} \<and>
                (\<forall>x. (e, x) \<in> conn ?E' \<longrightarrow> ?m' x = Some g)"
      if "?m' e = Some g" for e g
    proof (cases "e \<in> ?Ca \<union> ?Cb")
      case True
      then have "?m' e = Some ?ga" using in_union[of e] by blast
      with that have g: "g = ?ga" by (metis option.inject)
      from True have c: "conn ?E' `` {e} = ?Ca \<union> ?Cb"
        by (simp add: conn_insert_Image)
      have "?m' x = Some ?ga" if "(e, x) \<in> conn ?E'" for x
        using that c in_union[of x] by blast
      with g c ga_set m1_lt[OF m1a] show ?thesis by (auto intro: less_SucI)
    next
      case False
      with that have m1e: "?m1 e = Some g" by (auto split: if_splits)
      from False in_Ca[of e] m1e have gne: "g \<noteq> ?ga" by auto
      from False have c: "conn ?E' `` {e} = conn E `` {e}"
        by (simp add: conn_insert_Image)
      have "?m' x = Some g" if "(e, x) \<in> conn ?E'" for x
      proof -
        from that c have ex: "(e, x) \<in> conn E" by auto
        then have "?m1 x = Some g" using m1_share[OF m1e] by simp
        moreover have "x \<notin> ?Cb"
          using False ex by (auto dest: conn_sym conn_trans)
        ultimately show ?thesis by simp
      qed
      with gne c m1_cls[OF m1e] m1_lt[OF m1e] show ?thesis by (auto intro: less_SucI)
    qed
    show ?thesis
      unfolding ginv_def heap' dict' next'
      using dist' dom' main by blast
  qed
qed


lemma ginv_foldl:
  "ginv E s \<Longrightarrow> ginv (E \<union> set ps) (foldl merge_pair s ps)"
proof (induction ps arbitrary: E s)
  case Nil
  then show ?case by simp
next
  case (Cons p ps)
  obtain a b where p: "p = (a, b)" by (cases p)
  from Cons.prems have "ginv (insert (a, b) E) (merge_pair s (a, b))"
    by (rule ginv_merge_pair)
  from Cons.IH[OF this] show ?case by (simp add: p)
qed

lemma ginv_pairs: "ginv (set ps) (foldl merge_pair init_state ps)"
  using ginv_foldl[OF ginv_init, of ps] by simp

lemma yield_groups_Inr:
  assumes "\<And>e g. (e, g) \<in> set d \<Longrightarrow> h g \<noteq> []"
  shows "yield_groups h d = Inr (map (\<lambda>(e, g). h g) (filter (\<lambda>(e, g). e = hd (h g)) d))"
  using assms
proof (induction d)
  case Nil
  then show ?case by simp
next
  case (Cons p d)
  obtain e g where p: "p = (e, g)" by (cases p)
  from Cons.prems[of e g] have ne: "h g \<noteq> []" by (simp add: p)
  then obtain x xs where hg: "h g = x # xs" by (cases "h g") auto
  have "yield_groups h d = Inr (map (\<lambda>(e, g). h g) (filter (\<lambda>(e, g). e = hd (h g)) d))"
    using Cons.prems by (intro Cons.IH) auto
  then show ?case by (simp add: p hg)
qed

lemma ginv_yield:
  assumes "ginv E s"
  shows "\<exists>gs. yield_groups (heap s) (groups s) = Inr gs \<and> set ` set gs = components E"
proof -
  let ?m = "map_of (groups s)" and ?h = "heap s" and ?d = "groups s"
  from assms have dist: "distinct (map fst ?d)"
    and dom: "dom ?m = Field E"
    and cls: "\<And>e g. ?m e = Some g \<Longrightarrow> set (?h g) = conn E `` {e}"
    and share: "\<And>e g x. ?m e = Some g \<Longrightarrow> (e, x) \<in> conn E \<Longrightarrow> ?m x = Some g"
    by (auto simp: ginv_def)
  have mem: "(e, g) \<in> set ?d \<longleftrightarrow> ?m e = Some g" for e g
    using dist by simp
  have ne: "?h g \<noteq> []" if "(e, g) \<in> set ?d" for e g
  proof -
    from that mem have "set (?h g) = conn E `` {e}" using cls by blast
    with conn_refl[of e E] show ?thesis by auto
  qed
  let ?gs = "map (\<lambda>(e, g). ?h g) (filter (\<lambda>(e, g). e = hd (?h g)) ?d)"
  have y: "yield_groups ?h ?d = Inr ?gs"
    by (rule yield_groups_Inr) (rule ne)
  have "set ` set ?gs = components E"
  proof (intro set_eqI iffI)
    fix C assume "C \<in> set ` set ?gs"
    then obtain e g where eg: "(e, g) \<in> set ?d" and C: "C = set (?h g)"
      by auto
    from eg mem have m: "?m e = Some g" by simp
    then have "e \<in> Field E" using dom by auto
    moreover have "C = conn E `` {e}" using C cls[OF m] by simp
    ultimately show "C \<in> components E"
      unfolding components_def by (auto intro: quotientI)
  next
    fix C assume "C \<in> components E"
    then obtain v where v: "v \<in> Field E" and C: "C = conn E `` {v}"
      unfolding components_def by (auto elim: quotientE)
    from v dom obtain g where m: "?m v = Some g" by auto
    with mem ne have "?h g \<noteq> []" by blast
    then have "hd (?h g) \<in> set (?h g)" by simp
    with cls[OF m] have "(v, hd (?h g)) \<in> conn E" by simp
    from share[OF m this] mem have "(hd (?h g), g) \<in> set ?d" by simp
    then have "?h g \<in> set ?gs" by force
    with C cls[OF m] show "C \<in> set ` set ?gs" by blast
  qed
  with y show ?thesis by blast
qed

lemma groups_from_pairs_Inr:
  "\<exists>gs. groups_from_pairs ps = Inr gs \<and> set ` set gs = components (set ps)"
  unfolding groups_from_pairs_def Let_def using ginv_yield[OF ginv_pairs] .

subsection \<open>The groups are the connected components\<close>

lemma gfp3: "\<exists>g. groups_from_pairs [(A, B), (B, C)] = Inr [g] \<and> set g = {A, B, C}"
  by (cases "A = B"; cases "B = C"; cases "A = C")
     (auto simp: groups_from_pairs_def merge_pair_def alloc_def setdefault_def repoint_def
        init_state_def Let_def)

text \<open>
  C4. For every list of pairs, \<^verbatim>\<open>groups_from_pairs\<close> raises nothing and yields, as a
  set of sets, exactly the connected components of the undirected graph whose edges are
  the pairs. So two lists with the same pairs, in any order and with any repetitions,
  give the same set of sets, and the pairs \<open>(A, B)\<close> and \<open>(B, C)\<close> give the one group
  \<open>{A, B, C}\<close>.
\<close>

theorem groups_from_pairs_components:
 "(\<exists>gs. groups_from_pairs ps = Inr gs \<and> set ` set gs = components (set ps))
  \<and> (set ps = set qs \<longrightarrow>
       (\<exists>gs hs. groups_from_pairs ps = Inr gs \<and> groups_from_pairs qs = Inr hs
                \<and> set ` set gs = set ` set hs))
  \<and> (\<exists>g. groups_from_pairs [(A, B), (B, C)] = Inr [g] \<and> set g = {A, B, C})"
proof (intro conjI impI)
  show "\<exists>gs. groups_from_pairs ps = Inr gs \<and> set ` set gs = components (set ps)"
    by (rule groups_from_pairs_Inr)
next
  assume eq: "set ps = set qs"
  from groups_from_pairs_Inr[of ps] obtain gs where
    gs: "groups_from_pairs ps = Inr gs" "set ` set gs = components (set ps)" by blast
  from groups_from_pairs_Inr[of qs] obtain hs where
    hs: "groups_from_pairs qs = Inr hs" "set ` set hs = components (set qs)" by blast
  from gs hs eq show "\<exists>gs hs. groups_from_pairs ps = Inr gs \<and> groups_from_pairs qs = Inr hs
                \<and> set ` set gs = set ` set hs" by simp
next
  show "\<exists>g. groups_from_pairs [(A, B), (B, C)] = Inr [g] \<and> set g = {A, B, C}"
    by (rule gfp3)
qed

theorem groups_from_pairs_components_witness:
  "set [(1::nat, 2::nat), (2, 3)] = set [(2::nat, 3::nat), (1, 2), (1, 2)]
   \<and> groups_from_pairs [(1::nat, 2::nat), (2, 3)] = Inr [[1, 2, 3]]
   \<and> groups_from_pairs [(2::nat, 3::nat), (1, 2), (1, 2)] = Inr [[1, 2, 3]]
   \<and> components (set [(1::nat, 2::nat), (2, 3)]) = {{1, 2, 3}}
   \<and> components (set [(2::nat, 3::nat), (1, 2), (1, 2)]) = {{1, 2, 3}}"
proof -
  have a: "groups_from_pairs [(1::nat, 2::nat), (2, 3)] = Inr [[1, 2, 3]]"
    by (simp add: groups_from_pairs_def merge_pair_def alloc_def setdefault_def repoint_def
        init_state_def Let_def)
  have b: "groups_from_pairs [(2::nat, 3::nat), (1, 2), (1, 2)] = Inr [[1, 2, 3]]"
    by (simp add: groups_from_pairs_def merge_pair_def alloc_def setdefault_def repoint_def
        init_state_def Let_def)
  have c: "set [(1::nat, 2::nat), (2, 3)] = set [(2::nat, 3::nat), (1, 2), (1, 2)]"
    by auto
  from groups_from_pairs_components[of "[(1::nat, 2::nat), (2, 3)]" "[(2::nat, 3::nat), (1, 2), (1, 2)]"]
  have "\<exists>gs. groups_from_pairs [(1::nat, 2::nat), (2, 3)] = Inr gs
          \<and> set ` set gs = components (set [(1::nat, 2::nat), (2, 3)])"
    by (rule conjunct1)
  with a have d: "components (set [(1::nat, 2::nat), (2, 3)]) = {{1, 2, 3}}"
    by auto
  with c have "components (set [(2::nat, 3::nat), (1, 2), (1, 2)]) = {{1, 2, 3}}"
    by (simp only:)
  with a b c d show ?thesis by blast
qed


subsection \<open>Which group is merged into which\<close>

lemma merge_pair_dict:
  "map_of (groups (merge_pair s (a, b))) x =
     (if other_of s a b \<noteq> grp_of s a \<and> x \<in> set (heap1 s a b (other_of s a b))
      then Some (grp_of s a) else dict1 s a x)"
  by (simp add: merge_pair_unfold map_of_repoint map_of_setdefault)

text \<open>
  C8, as the specification states it: the smaller of the two groups is merged into the
  larger one. After the pair \<open>(1, 2)\<close>, the pair \<open>(3, 1)\<close> meets the new group \<open>[3]\<close>
  and the group \<open>[1, 2]\<close>: the code appends the larger group to the smaller one and
  the merged group is \<open>[3, 1, 2]\<close>, not \<open>[1, 2, 3]\<close>.
\<close>

theorem merge_by_size_counterexample:
  "fetch_or_create (foldl merge_pair init_state [(1::nat, 2::nat)]) 3 = [3]
   \<and> fetch_or_create (foldl merge_pair init_state [(1::nat, 2::nat)]) 1 = [1, 2]
   \<and> fetch_or_create (merge_pair (foldl merge_pair init_state [(1::nat, 2::nat)]) (3, 1)) 3
       = [3, 1, 2]
   \<and> fetch_or_create (merge_pair (foldl merge_pair init_state [(1::nat, 2::nat)]) (3, 1)) 3
       \<noteq> smaller_into_larger
           (fetch_or_create (foldl merge_pair init_state [(1::nat, 2::nat)]) 3)
           (fetch_or_create (foldl merge_pair init_state [(1::nat, 2::nat)]) 1)
   \<and> groups_from_pairs [(1::nat, 2::nat), (3, 1)] = Inr [[3, 1, 2]]"
  by (simp add: fetch_or_create_def smaller_into_larger_def groups_from_pairs_def merge_pair_def
      alloc_def setdefault_def repoint_def init_state_def Let_def)

text \<open>
  C8, amended: for every pair \<open>(a, b)\<close> processed in a state that the loop reaches, when
  \<open>a\<close> and \<open>b\<close> belong to two different groups, the group of \<open>b\<close> is merged into the
  group of \<open>a\<close>, whatever their sizes: its elements are appended to the group of \<open>a\<close>,
  and the dict maps every member of the merged group to that one list object.
\<close>

theorem merge_pair_appends:
  assumes reach: "s = foldl merge_pair init_state ps"
    and ab: "a \<noteq> b"
    and diff: "map_of (groups s) a = None \<or> map_of (groups s) b \<noteq> map_of (groups s) a"
  shows "\<exists>g. map_of (groups (merge_pair s (a, b))) a = Some g
           \<and> heap (merge_pair s (a, b)) g = fetch_or_create s a @ fetch_or_create s b
           \<and> (\<forall>m \<in> set (fetch_or_create s a @ fetch_or_create s b).
                 map_of (groups (merge_pair s (a, b))) m = Some g)"
proof -
  let ?s' = "merge_pair s (a, b)"
  let ?n = "next_addr s"
  from reach have inv: "ginv (set ps) s" by (simp add: ginv_pairs)
  then have lt: "\<And>e g. map_of (groups s) e = Some g \<Longrightarrow> g < ?n"
    by (auto simp: ginv_def)
  have inv': "ginv (insert (a, b) (set ps)) ?s'"
    using inv by (rule ginv_merge_pair)
  have old: "g \<noteq> ?n \<and> g \<noteq> Suc ?n" if "map_of (groups s) e = Some g" for e g
    using lt[OF that] by simp
  have ne: "other_of s a b \<noteq> grp_of s a"
    using ab diff
    by (auto simp: other_of_def grp_of_def dict1_def split: option.splits dest: old)
  have ga: "heap1 s a b (grp_of s a) = fetch_or_create s a"
    by (auto simp: heap1_def grp_of_def fetch_or_create_def split: option.splits dest: old)
  have gb: "heap1 s a b (other_of s a b) = fetch_or_create s b"
    using ab
    by (auto simp: heap1_def other_of_def dict1_def fetch_or_create_def split: option.splits
        dest: old)
  have h: "heap ?s' (grp_of s a) = fetch_or_create s a @ fetch_or_create s b"
    using ne ga gb by (simp add: merge_pair_unfold)
  have a: "map_of (groups ?s') a = Some (grp_of s a)"
    by (auto simp: merge_pair_dict dict1_def grp_of_def split: option.splits)
  from inv' a have
    "set (heap ?s' (grp_of s a)) = conn (insert (a, b) (set ps)) `` {a}"
    "\<forall>x. (a, x) \<in> conn (insert (a, b) (set ps)) \<longrightarrow> map_of (groups ?s') x = Some (grp_of s a)"
    unfolding ginv_def by blast+
  then have "\<forall>m \<in> set (heap ?s' (grp_of s a)). map_of (groups ?s') m = Some (grp_of s a)"
    by blast
  with a h show ?thesis by metis
qed

theorem merge_pair_appends_witness:
  "(3::nat) \<noteq> 1
   \<and> map_of (groups (foldl merge_pair init_state [(1::nat, 2::nat)])) 3 = None
   \<and> fetch_or_create (foldl merge_pair init_state [(1::nat, 2::nat)]) 3 = [3]
   \<and> fetch_or_create (foldl merge_pair init_state [(1::nat, 2::nat)]) 1 = [1, 2]
   \<and> (\<exists>g. map_of (groups (merge_pair (foldl merge_pair init_state [(1::nat, 2::nat)]) (3, 1))) 3
             = Some g
         \<and> heap (merge_pair (foldl merge_pair init_state [(1::nat, 2::nat)]) (3, 1)) g = [3, 1, 2]
         \<and> map_of (groups (merge_pair (foldl merge_pair init_state [(1::nat, 2::nat)]) (3, 1))) 1
             = Some g
         \<and> map_of (groups (merge_pair (foldl merge_pair init_state [(1::nat, 2::nat)]) (3, 1))) 2
             = Some g)"
proof -
  let ?s = "foldl merge_pair init_state [(1::nat, 2::nat)]"
  have n: "map_of (groups ?s) 3 = None"
    by (simp add: merge_pair_def alloc_def setdefault_def repoint_def init_state_def Let_def)
  have f3: "fetch_or_create ?s 3 = [3]"
    by (simp add: fetch_or_create_def merge_pair_def alloc_def setdefault_def repoint_def
        init_state_def Let_def)
  have f1: "fetch_or_create ?s 1 = [1, 2]"
    by (simp add: fetch_or_create_def merge_pair_def alloc_def setdefault_def repoint_def
        init_state_def Let_def)
  have d: "(3::nat) \<noteq> 1" by simp
  from merge_pair_appends[OF refl d disjI1[OF n]] f3 f1 n d
  show ?thesis by auto
qed

section \<open>The swap table loader: properties\<close>

text \<open>The definitions that a run on concrete rows unfolds.\<close>

lemmas eval_defs = get_formulation_swaps_def read_formulation_swaps_file_def
  groups_from_pairs_def merge_pair_def alloc_def setdefault_def repoint_def init_state_def Let_def
  formulations_for_group_def set_primary_def strip_def is_space_def
  generic_equivalent_for_bnf_code_def re_match_def EXCLUSIONS_RE_def slice_def
  GENERIC_SUB_PARAGRAPHS_def

lemma find_append:
  "find P (xs @ ys) = (case find P xs of None \<Rightarrow> find P ys | Some x \<Rightarrow> Some x)"
  by (induction xs) auto

lemma last_label_Cons:
  "last_label (row # data) c =
     (case last_label data c of
        Some l \<Rightarrow> Some l
      | None \<Rightarrow> if accepted row then row_label row c else None)"
proof (cases "find (\<lambda>row. row_label row c \<noteq> None) (rev (filter accepted data))")
  case None
  then show ?thesis
    by (auto simp: last_label_def find_append)
next
  case (Some r)
  then have "row_label r c \<noteq> None"
    by (auto simp: find_Some_iff)
  with Some show ?thesis
    by (auto simp: last_label_def find_append)
qed

lemma read_rows_filter:
  "read_rows data code_pairs formulations = read_rows (filter accepted data) code_pairs formulations"
  by (induction data arbitrary: code_pairs formulations) (auto simp: accepted_def Let_def)

lemma read_rows_invalid:
  "\<exists>row \<in> set data. accepted row \<and> \<not> valid_row row
     \<Longrightarrow> read_rows data code_pairs formulations = Inl AssertionError"
proof (induction data arbitrary: code_pairs formulations)
  case Nil
  then show ?case by simp
next
  case (Cons row data)
  show ?case
  proof (cases "accepted row \<and> \<not> valid_row row")
    case True
    then show ?thesis
      by (auto simp: accepted_def valid_row_def is_generic_def Let_def)
  next
    case False
    with Cons.prems have "\<exists>row \<in> set data. accepted row \<and> \<not> valid_row row" by auto
    from Cons.IH[OF this] show ?thesis
      by (auto simp: Let_def)
  qed
qed

lemma read_rows_valid:
  "\<forall>row \<in> set data. accepted row \<longrightarrow> valid_row row
     \<Longrightarrow> \<exists>fm. read_rows data code_pairs formulations
             = Inr (code_pairs @ map row_pair (filter accepted data), fm)
           \<and> (\<forall>c. fm c = (case last_label data c of None \<Rightarrow> formulations c | Some l \<Rightarrow> Some l))"
proof (induction data arbitrary: code_pairs formulations)
  case Nil
  then show ?case by (simp add: last_label_def)
next
  case (Cons row data)
  then have rest: "\<forall>row \<in> set data. accepted row \<longrightarrow> valid_row row" by simp
  show ?case
  proof (cases "accepted row")
    case False
    with Cons.IH[OF rest, of code_pairs formulations] show ?thesis
      by (simp add: accepted_def last_label_def)
  next
    case True
    with Cons.prems have v: "valid_row row" by simp
    let ?fm = "formulations(strip (Code row) \<mapsto> strip (Formulation row),
                 strip (Alternative_code row) \<mapsto> strip (Alternative_formulation row))"
    from Cons.IH[OF rest, of "code_pairs @ [row_pair row]" ?fm]
    obtain fm where fm: "read_rows data (code_pairs @ [row_pair row]) ?fm
             = Inr ((code_pairs @ [row_pair row]) @ map row_pair (filter accepted data), fm)"
      and lab: "\<And>c. fm c = (case last_label data c of None \<Rightarrow> ?fm c | Some l \<Rightarrow> Some l)"
      by blast
    have step: "read_rows (row # data) code_pairs formulations
                  = read_rows data (code_pairs @ [row_pair row]) ?fm"
      using True v by (simp add: accepted_def valid_row_def is_generic_def Let_def row_pair_def)
    have upd: "?fm c = (case row_label row c of None \<Rightarrow> formulations c | Some l \<Rightarrow> Some l)" for c
      by (simp add: row_label_def)
    have "fm c = (case last_label (row # data) c of None \<Rightarrow> formulations c | Some l \<Rightarrow> Some l)" for c
      unfolding lab last_label_Cons upd using True
      by (simp split: option.splits)
    with step fm True show ?thesis by simp
  qed
qed

lemma read_rows_ok:
  assumes "\<forall>row \<in> set data. accepted row \<longrightarrow> valid_row row"
  shows "read_rows data [] Map.empty = Inr (map row_pair (filter accepted data), last_label data)"
proof -
  from read_rows_valid[OF assms, of "[]" Map.empty] obtain fm where
    r: "read_rows data [] Map.empty = Inr (map row_pair (filter accepted data), fm)"
    and fm: "\<And>c. fm c = (case last_label data c of None \<Rightarrow> None | Some l \<Rightarrow> Some l)"
    by auto
  have "fm = last_label data"
    by (rule ext) (simp add: fm split: option.splits)
  with r show ?thesis by simp
qed

lemma components_groups:
  assumes "set ` set gs = components E" and "g \<in> set gs"
  shows "g \<noteq> []" and "set g \<subseteq> Field E" and "\<And>c. c \<in> set g \<Longrightarrow> set g = conn E `` {c}"
proof -
  from assms have "set g \<in> Field E // conn E"
    unfolding components_def by blast
  then obtain v where v: "v \<in> Field E" and g: "set g = conn E `` {v}"
    by (auto elim: quotientE)
  from g conn_refl[of v E] show "g \<noteq> []" by auto
  show "set g = conn E `` {c}" if "c \<in> set g" for c
  proof -
    from that g have "(v, c) \<in> conn E" by simp
    then have "conn E `` {c} = conn E `` {v}"
      by (auto intro: conn_sym conn_trans)
    with g show ?thesis by simp
  qed
  show "set g \<subseteq> Field E"
  proof
    fix c assume "c \<in> set g"
    with g have vc: "(v, c) \<in> conn E" by simp
    show "c \<in> Field E"
      using conn_isolated[OF _ conn_sym[OF vc]] v by auto
  qed
qed

lemma components_cover:
  assumes "set ` set gs = components E" and "v \<in> Field E"
  shows "\<exists>g \<in> set gs. v \<in> set g"
proof -
  from assms(2) have "conn E `` {v} \<in> components E"
    unfolding components_def by (rule quotientI)
  with assms(1) have "conn E `` {v} \<in> set ` set gs" by simp
  then obtain g where "g \<in> set gs" "set g = conn E `` {v}" by auto
  with conn_refl[of v E] show ?thesis by auto
qed

lemma concat_labels:
  "distinct xs \<Longrightarrow>
     distinct (concat (map (\<lambda>f. case f of None \<Rightarrow> [] | Some l \<Rightarrow> (if l = [] then [] else [l])) xs))
     \<and> set (concat (map (\<lambda>f. case f of None \<Rightarrow> [] | Some l \<Rightarrow> (if l = [] then [] else [l])) xs))
         = {l. l \<noteq> [] \<and> Some l \<in> set xs}"
  by (induction xs) (auto split: option.splits)

lemma formulations_for_group_set:
  "distinct (formulations_for_group fm cg)"
  "set (formulations_for_group fm cg) = {l. l \<noteq> [] \<and> (\<exists>c \<in> set cg. fm c = Some l)}"
proof -
  have d: "distinct (remdups (map fm cg))" by simp
  from concat_labels[OF d] show "distinct (formulations_for_group fm cg)"
    unfolding formulations_for_group_def by blast
  from concat_labels[OF d]
  have "set (formulations_for_group fm cg) = {l. l \<noteq> [] \<and> Some l \<in> set (remdups (map fm cg))}"
    unfolding formulations_for_group_def by blast
  also have "\<dots> = {l. l \<noteq> [] \<and> (\<exists>c \<in> set cg. fm c = Some l)}"
    by (auto simp: image_iff) metis+
  finally show "set (formulations_for_group fm cg) = {l. l \<noteq> [] \<and> (\<exists>c \<in> set cg. fm c = Some l)}" .
qed

lemma sort_Min:
  fixes codes :: "'a::linorder list"
  assumes "codes \<noteq> []"
  shows "\<exists>rest. sort codes = Min (set codes) # rest"
proof (cases "sort codes")
  case Nil
  then have "set (sort codes) = {}" by simp
  with assms show ?thesis by simp
next
  case (Cons x xs)
  have s: "sorted (x # xs)" and e: "set (x # xs) = set codes"
    using Cons[symmetric] by simp_all
  have "Min (set codes) = x"
  proof (rule Min_eqI)
    show "finite (set codes)" by simp
    show "x \<in> set codes" using e by auto
    show "x \<le> y" if "y \<in> set codes" for y
      using that s e by auto
  qed
  with Cons show ?thesis by simp
qed

lemma set_primary_apply:
  "set_primary codes p swaps c = (if c \<in> set codes then Some p else swaps c)"
  unfolding set_primary_def by (induction codes arbitrary: swaps) auto

lemma sort_distinct_set:
  fixes fs :: "'a::linorder list"
  shows "distinct fs \<Longrightarrow> sort fs = sorted_list_of_set (set fs)"
  by (simp add: sorted_list_of_set_sort_remdups distinct_remdups_id)

lemma swaps_loop_char:
  assumes "\<forall>g \<in> set gs. good_group cls L g"
  shows "\<exists>sw' ds'. swaps_loop gs sw ds = Inr (sw', ds') \<and>
     (\<forall>c. sw' c = (if \<exists>g \<in> set gs. c \<in> set (fst g) then Some (Min (cls c)) else sw c)) \<and>
     (\<forall>p. ds' p = (if (\<exists>g \<in> set gs. Min (set (fst g)) = p) \<and> 1 < card (L (cls p))
                    then Some (join '' / '' (sorted_list_of_set (L (cls p)))) else ds p))"
  using assms
proof (induction gs arbitrary: sw ds)
  case Nil
  then show ?case by simp
next
  case (Cons g gs)
  obtain codes fs where g: "g = (codes, fs)" by (cases g)
  from Cons.prems have gg: "good_group cls L (codes, fs)"
    and rest: "\<forall>g \<in> set gs. good_group cls L g"
    by (simp_all add: g)
  from gg have ne: "codes \<noteq> []" and cl: "\<And>c. c \<in> set codes \<Longrightarrow> set codes = cls c"
    and dfs: "distinct fs" and sfs: "set fs = L (set codes)"
    by (auto simp: good_group_def)
  let ?p = "Min (set codes)"
  from sort_Min[OF ne] obtain r where srt: "sort codes = ?p # r" by blast
  have pin: "?p \<in> set codes" using ne by (intro Min_in) auto
  have clp: "cls ?p = set codes" using cl[OF pin] by simp
  let ?sw1 = "set_primary codes ?p sw"
  let ?ds1 = "if 1 < length fs then ds(?p \<mapsto> join '' / '' (sort fs)) else ds"
  have step: "swaps_loop (g # gs) sw ds = swaps_loop gs ?sw1 ?ds1"
    by (simp add: g srt)
  from Cons.IH[OF rest, of ?sw1 ?ds1] obtain sw' ds' where
    r: "swaps_loop gs ?sw1 ?ds1 = Inr (sw', ds')"
    and sw': "\<And>c. sw' c = (if \<exists>g \<in> set gs. c \<in> set (fst g) then Some (Min (cls c)) else ?sw1 c)"
    and ds': "\<And>p. ds' p = (if (\<exists>g \<in> set gs. Min (set (fst g)) = p) \<and> 1 < card (L (cls p))
                    then Some (join '' / '' (sorted_list_of_set (L (cls p)))) else ?ds1 p)"
    by blast
  have len: "length fs = card (L (set codes))"
    using dfs sfs distinct_card[of fs] by simp
  have sfs': "sort fs = sorted_list_of_set (L (set codes))"
    using sort_distinct_set[OF dfs] sfs by simp
  have a: "sw' c = (if \<exists>g \<in> set (g # gs). c \<in> set (fst g) then Some (Min (cls c)) else sw c)" for c
    unfolding sw' using cl[of c] by (auto simp: g set_primary_apply)
  have ds1: "?ds1 p = (if Min (set codes) = p \<and> 1 < card (L (cls p))
                    then Some (join '' / '' (sorted_list_of_set (L (cls p)))) else ds p)" for p
    using clp by (auto simp: len sfs')
  have b: "ds' p = (if (\<exists>g \<in> set (g # gs). Min (set (fst g)) = p) \<and> 1 < card (L (cls p))
                    then Some (join '' / '' (sorted_list_of_set (L (cls p)))) else ds p)" for p
    unfolding ds' ds1 by (auto simp: g)
  show ?case
    unfolding step r using a b by simp
qed

lemma loader_invalid:
  assumes "\<exists>row \<in> set data. accepted row \<and> \<not> valid_row row"
  shows "read_formulation_swaps_file data = Inl AssertionError"
    and "get_formulation_swaps data = Inl AssertionError"
    and "get_substitution_sets_from_bnf_codes data names bnf_codes = Inl AssertionError"
  using read_rows_invalid[OF assms, of "[]" Map.empty]
  by (simp_all add: read_formulation_swaps_file_def get_formulation_swaps_def
      get_substitution_sets_from_bnf_codes_def)

lemma loader_valid:
  assumes "\<forall>row \<in> set data. accepted row \<longrightarrow> valid_row row"
  shows "\<exists>cgs. groups_from_pairs (map row_pair (filter accepted data)) = Inr cgs
           \<and> set ` set cgs = components (swap_edges data)
           \<and> read_formulation_swaps_file data
               = Inr (map (\<lambda>cg. (cg, formulations_for_group (last_label data) cg)) cgs)"
proof -
  from groups_from_pairs_Inr[of "map row_pair (filter accepted data)"] obtain cgs where
    "groups_from_pairs (map row_pair (filter accepted data)) = Inr cgs"
    "set ` set cgs = components (swap_edges data)"
    unfolding swap_edges_def by blast
  then show ?thesis
    by (simp add: read_formulation_swaps_file_def read_rows_ok[OF assms])
qed

lemma loader_good_groups:
  assumes "\<forall>row \<in> set data. accepted row \<longrightarrow> valid_row row"
    and "read_formulation_swaps_file data = Inr gs"
  shows "set ` set (map fst gs) = components (swap_edges data)"
    and "\<And>g. g \<in> set gs \<Longrightarrow>
           good_group (\<lambda>c. conn (swap_edges data) `` {c}) (labels_of data) g"
proof -
  from loader_valid[OF assms(1)] assms(2) obtain cgs where
    c: "set ` set cgs = components (swap_edges data)"
    and gs: "gs = map (\<lambda>cg. (cg, formulations_for_group (last_label data) cg)) cgs"
    by auto
  have "map fst gs = cgs" unfolding gs by (simp add: comp_def)
  with c show "set ` set (map fst gs) = components (swap_edges data)" by simp
  show "good_group (\<lambda>c. conn (swap_edges data) `` {c}) (labels_of data) g" if "g \<in> set gs" for g
  proof -
    from that gs obtain cg where cg: "cg \<in> set cgs"
      and g: "g = (cg, formulations_for_group (last_label data) cg)" by auto
    from components_groups[OF c cg] formulations_for_group_set[of "last_label data" cg]
    show ?thesis
      unfolding good_group_def g labels_of_def by auto
  qed
qed

lemma gfs_valid:
  assumes "\<forall>row \<in> set data. accepted row \<longrightarrow> valid_row row"
  shows "get_formulation_swaps data = Inr (swaps_of data, descriptions_of data)"
proof -
  let ?E = "swap_edges data"
  let ?cls = "\<lambda>c. conn ?E `` {c}"
  from loader_valid[OF assms] obtain gs where rf: "read_formulation_swaps_file data = Inr gs"
    by blast
  note comp = loader_good_groups(1)[OF assms rf]
  note good = loader_good_groups(2)[OF assms rf]
  from swaps_loop_char[of gs ?cls "labels_of data" Map.empty Map.empty] good
  obtain sw ds where r: "swaps_loop gs Map.empty Map.empty = Inr (sw, ds)"
    and sw: "\<And>c. sw c = (if \<exists>g \<in> set gs. c \<in> set (fst g) then Some (Min (?cls c)) else None)"
    and ds: "\<And>p. ds p = (if (\<exists>g \<in> set gs. Min (set (fst g)) = p) \<and> 1 < card (labels_of data (?cls p))
                    then Some (join '' / '' (sorted_list_of_set (labels_of data (?cls p)))) else None)"
    by auto
  have in_iff: "(\<exists>g \<in> set gs. c \<in> set (fst g)) \<longleftrightarrow> c \<in> Field ?E" for c
  proof
    assume "\<exists>g \<in> set gs. c \<in> set (fst g)"
    then obtain g where "g \<in> set gs" "c \<in> set (fst g)" by blast
    then have "fst g \<in> set (map fst gs)" by simp
    from components_groups(2)[OF comp this] \<open>c \<in> set (fst g)\<close> show "c \<in> Field ?E" by blast
  next
    assume "c \<in> Field ?E"
    from components_cover[OF comp this] show "\<exists>g \<in> set gs. c \<in> set (fst g)" by auto
  qed
  have pr_iff: "(\<exists>g \<in> set gs. Min (set (fst g)) = p) \<longleftrightarrow>
                (\<exists>v. v \<in> Field ?E \<and> Min (?cls v) = p)" for p
  proof
    assume "\<exists>g \<in> set gs. Min (set (fst g)) = p"
    then obtain g where g: "g \<in> set gs" and p: "Min (set (fst g)) = p" by blast
    then have m: "fst g \<in> set (map fst gs)" by simp
    from components_groups(1)[OF comp m] obtain c where c: "c \<in> set (fst g)"
      by (cases "fst g") auto
    from components_groups(3)[OF comp m c] components_groups(2)[OF comp m] c p
    show "\<exists>v. v \<in> Field ?E \<and> Min (?cls v) = p" by auto
  next
    assume "\<exists>v. v \<in> Field ?E \<and> Min (?cls v) = p"
    then obtain v where v: "v \<in> Field ?E" and p: "Min (?cls v) = p" by blast
    from components_cover[OF comp v] obtain cg where cg: "cg \<in> set (map fst gs)" "v \<in> set cg"
      by blast
    from components_groups(3)[OF comp cg] p have "Min (set cg) = p" by simp
    with cg(1) show "\<exists>g \<in> set gs. Min (set (fst g)) = p" by auto
  qed
  have "sw = swaps_of data"
    by (rule ext) (simp add: sw in_iff swaps_of_def)
  moreover have "ds = descriptions_of data"
    by (rule ext) (simp add: ds pr_iff descriptions_of_def)
  ultimately show ?thesis
    using rf r by (simp add: get_formulation_swaps_def)
qed

subsection \<open>Accepted rows and the assertions\<close>

lemma loaded_valid:
  assumes "read_formulation_swaps_file data = Inr gs \<or> get_formulation_swaps data = Inr r"
  shows "\<forall>row \<in> set data. accepted row \<longrightarrow> valid_row row"
proof (rule ccontr)
  assume "\<not> (\<forall>row \<in> set data. accepted row \<longrightarrow> valid_row row)"
  then have "\<exists>row \<in> set data. accepted row \<and> \<not> valid_row row" by blast
  from loader_invalid(1,2)[OF this] assms show False by auto
qed

text \<open>
  C7. Only the rows whose trimmed \<^verbatim>\<open>Really equivalent?\<close> field is exactly \<open>Y\<close> are
  considered: the loader gives the same result on the file and on its accepted rows
  alone. If an accepted row has a code that the classifier does not map to itself, an
  alternative code that it does not map to itself, or a code equal to its alternative
  code, the whole load ends with \<^verbatim>\<open>AssertionError\<close>: no group is returned.
\<close>

theorem load_aborts:
  "read_formulation_swaps_file data = read_formulation_swaps_file (filter accepted data)
   \<and> ((\<exists>row \<in> set data. accepted row \<and>
          (\<not> is_generic (strip (Code row)) \<or> \<not> is_generic (strip (Alternative_code row))
           \<or> strip (Code row) = strip (Alternative_code row)))
        \<longrightarrow> read_formulation_swaps_file data = Inl AssertionError
          \<and> get_formulation_swaps data = Inl AssertionError)"
proof (intro conjI impI)
  have "read_rows data [] Map.empty = read_rows (filter accepted data) [] Map.empty"
    by (rule read_rows_filter)
  then show "read_formulation_swaps_file data = read_formulation_swaps_file (filter accepted data)"
    by (simp add: read_formulation_swaps_file_def)
next
  assume "\<exists>row \<in> set data. accepted row \<and>
          (\<not> is_generic (strip (Code row)) \<or> \<not> is_generic (strip (Alternative_code row))
           \<or> strip (Code row) = strip (Alternative_code row))"
  then have bad: "\<exists>row \<in> set data. accepted row \<and> \<not> valid_row row"
    by (auto simp: valid_row_def)
  from loader_invalid(1)[OF bad] show "read_formulation_swaps_file data = Inl AssertionError" .
  from loader_invalid(2)[OF bad] show "get_formulation_swaps data = Inl AssertionError" .
qed

theorem load_aborts_witness:
  "accepted \<lparr>Code = ''040702040BBACAC'', Alternative_code = ''040702040AAAHAH'',
              Formulation = ''Tab'', Alternative_formulation = ''Cap'',
              Really_equivalent = '' Y ''\<rparr>
   \<and> \<not> is_generic (strip (Code \<lparr>Code = ''040702040BBACAC'', Alternative_code = ''040702040AAAHAH'',
              Formulation = ''Tab'', Alternative_formulation = ''Cap'',
              Really_equivalent = '' Y ''\<rparr>))
   \<and> read_formulation_swaps_file
        [\<lparr>Code = ''040702040AAACAC'', Alternative_code = ''040702040AAAHAH'',
          Formulation = ''Tab'', Alternative_formulation = ''Cap'', Really_equivalent = ''Y''\<rparr>,
         \<lparr>Code = ''040702040BBACAC'', Alternative_code = ''040702040AAAHAH'',
          Formulation = ''Tab'', Alternative_formulation = ''Cap'',
          Really_equivalent = '' Y ''\<rparr>]
       = Inl AssertionError
   \<and> read_formulation_swaps_file
        [\<lparr>Code = ''040702040AAACAC'', Alternative_code = ''040702040AAAHAH'',
          Formulation = ''Tab'', Alternative_formulation = ''Cap'', Really_equivalent = ''Y''\<rparr>,
         \<lparr>Code = ''040702040BBACAC'', Alternative_code = ''040702040AAAHAH'',
          Formulation = ''Tab'', Alternative_formulation = ''Cap'',
          Really_equivalent = ''y''\<rparr>]
       = Inr [([''040702040AAACAC'', ''040702040AAAHAH''], [''Tab'', ''Cap''])]"
proof -
  let ?ok = "\<lparr>Code = ''040702040AAACAC'', Alternative_code = ''040702040AAAHAH'',
          Formulation = ''Tab'', Alternative_formulation = ''Cap'', Really_equivalent = ''Y''\<rparr>"
  let ?bad = "\<lparr>Code = ''040702040BBACAC'', Alternative_code = ''040702040AAAHAH'',
              Formulation = ''Tab'', Alternative_formulation = ''Cap'',
              Really_equivalent = '' Y ''\<rparr>"
  let ?off = "\<lparr>Code = ''040702040BBACAC'', Alternative_code = ''040702040AAAHAH'',
              Formulation = ''Tab'', Alternative_formulation = ''Cap'',
              Really_equivalent = ''y''\<rparr>"
  have a: "accepted ?bad"
    by (simp add: accepted_def strip_def is_space_def)
  have b: "\<not> is_generic (strip (Code ?bad))"
    by (simp add: is_generic_def strip_def is_space_def generic_equivalent_for_bnf_code_def
        re_match_def EXCLUSIONS_RE_def slice_def)
  have c: "accepted ?ok" "\<not> accepted ?off"
    by (simp_all add: accepted_def strip_def is_space_def)
  have d: "read_formulation_swaps_file [?ok]
             = Inr [([''040702040AAACAC'', ''040702040AAAHAH''], [''Tab'', ''Cap''])]"
    by code_simp
  have "\<exists>row \<in> set [?ok, ?bad]. accepted row \<and>
          (\<not> is_generic (strip (Code row)) \<or> \<not> is_generic (strip (Alternative_code row))
           \<or> strip (Code row) = strip (Alternative_code row))"
    by (rule bexI[of _ ?bad]) (use a b in blast, simp)
  with load_aborts[of "[?ok, ?bad]"]
  have e: "read_formulation_swaps_file [?ok, ?bad] = Inl AssertionError"
    by blast
  have "filter accepted [?ok, ?off] = [?ok]"
    using c by simp
  with load_aborts[of "[?ok, ?off]", THEN conjunct1] d
  have f: "read_formulation_swaps_file [?ok, ?off]
             = Inr [([''040702040AAACAC'', ''040702040AAAHAH''], [''Tab'', ''Cap''])]"
    by (simp only:)
  from a b e f show ?thesis by blast
qed

subsection \<open>The primary code of a group\<close>

lemma conn_Image_subset: "conn E `` {c} \<subseteq> insert c (Field E)"
proof
  fix x assume "x \<in> conn E `` {c}"
  then have cx: "(c, x) \<in> conn E" by simp
  show "x \<in> insert c (Field E)"
    using conn_isolated[OF _ conn_sym[OF cx]] by auto
qed

lemma conn_class_eq: "(c, x) \<in> conn E \<Longrightarrow> conn E `` {x} = conn E `` {c}"
  by (auto intro: conn_sym conn_trans)

lemma swaps_of_Some:
  assumes "swaps_of data c = Some p"
  shows "p \<in> conn (swap_edges data) `` {c}"
    and "\<And>x. x \<in> conn (swap_edges data) `` {c} \<Longrightarrow> p \<le> x"
    and "swaps_of data p = Some p"
proof -
  let ?E = "swap_edges data"
  let ?C = "conn ?E `` {c}"
  from assms have c: "c \<in> Field ?E" and p: "p = Min ?C"
    by (auto simp: swaps_of_def split: if_splits)
  have "finite (Field ?E)"
    unfolding swap_edges_def by (simp add: finite_Field)
  with conn_Image_subset[of ?E c] have fin: "finite ?C"
    by (meson finite_insert finite_subset)
  have ne: "?C \<noteq> {}" using conn_refl[of c ?E] by auto
  from Min_in[OF fin ne] p show pin: "p \<in> ?C" by simp
  show "p \<le> x" if "x \<in> ?C" for x
    using Min_le[OF fin that] p by simp
  from pin conn_Image_subset[of ?E c] c have pf: "p \<in> Field ?E" by auto
  from pin have "conn ?E `` {p} = ?C" by (intro conn_class_eq) simp
  with pf p show "swaps_of data p = Some p"
    by (simp add: swaps_of_def)
qed

lemma swap_edges_mset: "mset data' = mset data \<Longrightarrow> swap_edges data' = swap_edges data"
proof -
  assume "mset data' = mset data"
  then have "set data' = set data" by (rule mset_eq_setD)
  then show ?thesis by (simp add: swap_edges_def)
qed

text \<open>
  C5. For every group that the loader produces, the primary code \<^verbatim>\<open>sorted(codes)[0]\<close>
  is a member of the group and the smallest one in the lexicographic order, and the
  swaps map sends every member of the group, the primary code too, to it. The swaps map
  does not depend on the order of the rows: a permutation of the rows gives the same
  map, or the same error.
\<close>

theorem primary_code_smallest:
  "(read_formulation_swaps_file data = Inr code_groups \<longrightarrow>
      (\<exists>swaps descs. get_formulation_swaps data = Inr (swaps, descs) \<and>
         (\<forall>g \<in> set code_groups. \<exists>p rest. sort (fst g) = p # rest \<and> p \<in> set (fst g)
             \<and> (\<forall>c \<in> set (fst g). p \<le> c \<and> swaps c = Some p))))
   \<and> (mset data' = mset data \<longrightarrow>
        map_sum id fst (get_formulation_swaps data') = map_sum id fst (get_formulation_swaps data))"
proof (intro conjI impI)
  assume rf: "read_formulation_swaps_file data = Inr code_groups"
  then have valid: "\<forall>row \<in> set data. accepted row \<longrightarrow> valid_row row"
    using loaded_valid by blast
  let ?E = "swap_edges data"
  note comp = loader_good_groups(1)[OF valid rf]
  have "\<exists>p rest. sort (fst g) = p # rest \<and> p \<in> set (fst g)
             \<and> (\<forall>c \<in> set (fst g). p \<le> c \<and> swaps_of data c = Some p)"
    if "g \<in> set code_groups" for g
  proof -
    from that have m: "fst g \<in> set (map fst code_groups)" by simp
    note ne = components_groups(1)[OF comp m]
    note sub = components_groups(2)[OF comp m]
    note cls = components_groups(3)[OF comp m]
    from sort_Min[OF ne] obtain rest where s: "sort (fst g) = Min (set (fst g)) # rest" by blast
    have pin: "Min (set (fst g)) \<in> set (fst g)" using ne by (intro Min_in) auto
    have "Min (set (fst g)) \<le> c \<and> swaps_of data c = Some (Min (set (fst g)))"
      if "c \<in> set (fst g)" for c
    proof -
      have "Min (set (fst g)) \<le> c" using that by (intro Min_le) auto
      moreover have "c \<in> Field ?E" using that sub by blast
      ultimately show ?thesis using cls[OF that] by (simp add: swaps_of_def)
    qed
    with s pin show ?thesis by blast
  qed
  with gfs_valid[OF valid]
  show "\<exists>swaps descs. get_formulation_swaps data = Inr (swaps, descs) \<and>
         (\<forall>g \<in> set code_groups. \<exists>p rest. sort (fst g) = p # rest \<and> p \<in> set (fst g)
             \<and> (\<forall>c \<in> set (fst g). p \<le> c \<and> swaps c = Some p))"
    by blast
next
  assume eq: "mset data' = mset data"
  then have sets: "set data' = set data" by (rule mset_eq_setD)
  show "map_sum id fst (get_formulation_swaps data') = map_sum id fst (get_formulation_swaps data)"
  proof (cases "\<forall>row \<in> set data. accepted row \<longrightarrow> valid_row row")
    case True
    with sets have "\<forall>row \<in> set data'. accepted row \<longrightarrow> valid_row row" by simp
    from gfs_valid[OF this] gfs_valid[OF True] swap_edges_mset[OF eq]
    show ?thesis by (simp add: swaps_of_def fun_eq_iff)
  next
    case False
    then have b: "\<exists>row \<in> set data. accepted row \<and> \<not> valid_row row" by blast
    with sets have "\<exists>row \<in> set data'. accepted row \<and> \<not> valid_row row" by simp
    from loader_invalid(2)[OF this] loader_invalid(2)[OF b] show ?thesis by simp
  qed
qed

theorem primary_code_smallest_witness:
  "mset [\<lparr>Code = ''040702040AAAHAH'', Alternative_code = ''040702040AAAEAE'',
           Formulation = ''Cap'', Alternative_formulation = ''Tab'', Really_equivalent = ''Y''\<rparr>,
         \<lparr>Code = ''040702040AAAHAH'', Alternative_code = ''040702040AAACAC'',
           Formulation = ''Cap'', Alternative_formulation = ''Tab'', Really_equivalent = ''Y''\<rparr>]
   = mset [\<lparr>Code = ''040702040AAAHAH'', Alternative_code = ''040702040AAACAC'',
           Formulation = ''Cap'', Alternative_formulation = ''Tab'', Really_equivalent = ''Y''\<rparr>,
         \<lparr>Code = ''040702040AAAHAH'', Alternative_code = ''040702040AAAEAE'',
           Formulation = ''Cap'', Alternative_formulation = ''Tab'', Really_equivalent = ''Y''\<rparr>]
   \<and> read_formulation_swaps_file
        [\<lparr>Code = ''040702040AAAHAH'', Alternative_code = ''040702040AAACAC'',
           Formulation = ''Cap'', Alternative_formulation = ''Tab'', Really_equivalent = ''Y''\<rparr>,
         \<lparr>Code = ''040702040AAAHAH'', Alternative_code = ''040702040AAAEAE'',
           Formulation = ''Cap'', Alternative_formulation = ''Tab'', Really_equivalent = ''Y''\<rparr>]
     = Inr [([''040702040AAAHAH'', ''040702040AAACAC'', ''040702040AAAEAE''], [''Cap'', ''Tab''])]
   \<and> (\<exists>swaps descs.
        get_formulation_swaps
          [\<lparr>Code = ''040702040AAAHAH'', Alternative_code = ''040702040AAACAC'',
             Formulation = ''Cap'', Alternative_formulation = ''Tab'', Really_equivalent = ''Y''\<rparr>,
           \<lparr>Code = ''040702040AAAHAH'', Alternative_code = ''040702040AAAEAE'',
             Formulation = ''Cap'', Alternative_formulation = ''Tab'', Really_equivalent = ''Y''\<rparr>]
          = Inr (swaps, descs)
        \<and> swaps ''040702040AAAHAH'' = Some ''040702040AAACAC''
        \<and> swaps ''040702040AAACAC'' = Some ''040702040AAACAC''
        \<and> swaps ''040702040AAAEAE'' = Some ''040702040AAACAC'')
   \<and> map_sum id fst (get_formulation_swaps
        [\<lparr>Code = ''040702040AAAHAH'', Alternative_code = ''040702040AAAEAE'',
           Formulation = ''Cap'', Alternative_formulation = ''Tab'', Really_equivalent = ''Y''\<rparr>,
         \<lparr>Code = ''040702040AAAHAH'', Alternative_code = ''040702040AAACAC'',
           Formulation = ''Cap'', Alternative_formulation = ''Tab'', Really_equivalent = ''Y''\<rparr>])
     = map_sum id fst (get_formulation_swaps
        [\<lparr>Code = ''040702040AAAHAH'', Alternative_code = ''040702040AAACAC'',
           Formulation = ''Cap'', Alternative_formulation = ''Tab'', Really_equivalent = ''Y''\<rparr>,
         \<lparr>Code = ''040702040AAAHAH'', Alternative_code = ''040702040AAAEAE'',
           Formulation = ''Cap'', Alternative_formulation = ''Tab'', Really_equivalent = ''Y''\<rparr>])"
proof -
  let ?x = "\<lparr>Code = ''040702040AAAHAH'', Alternative_code = ''040702040AAACAC'',
           Formulation = ''Cap'', Alternative_formulation = ''Tab'', Really_equivalent = ''Y''\<rparr>"
  let ?y = "\<lparr>Code = ''040702040AAAHAH'', Alternative_code = ''040702040AAAEAE'',
           Formulation = ''Cap'', Alternative_formulation = ''Tab'', Really_equivalent = ''Y''\<rparr>"
  let ?g = "([''040702040AAAHAH'', ''040702040AAACAC'', ''040702040AAAEAE''], [''Cap'', ''Tab''])"
  have m: "mset [?y, ?x] = mset [?x, ?y]"
    by (simp add: add.commute)
  have r: "read_formulation_swaps_file [?x, ?y] = Inr [?g]"
    by (simp add: eval_defs)
  note t = primary_code_smallest[of "[?x, ?y]" "[?g]" "[?y, ?x]"]
  from t r obtain swaps descs where
    g: "get_formulation_swaps [?x, ?y] = Inr (swaps, descs)"
    and a: "\<forall>g \<in> set [?g]. \<exists>p rest. sort (fst g) = p # rest \<and> p \<in> set (fst g)
             \<and> (\<forall>c \<in> set (fst g). p \<le> c \<and> swaps c = Some p)"
    by blast
  from a obtain p rest where s: "sort (fst ?g) = p # rest"
    and c: "\<forall>c \<in> set (fst ?g). p \<le> c \<and> swaps c = Some p"
    by auto
  from s have p: "p = ''040702040AAACAC''" by simp
  from c have sw: "swaps ''040702040AAAHAH'' = Some ''040702040AAACAC''"
    "swaps ''040702040AAACAC'' = Some ''040702040AAACAC''"
    "swaps ''040702040AAAEAE'' = Some ''040702040AAACAC''"
    unfolding p by simp_all
  from t m have o: "map_sum id fst (get_formulation_swaps [?y, ?x])
                      = map_sum id fst (get_formulation_swaps [?x, ?y])"
    by blast
  from m r g sw o show ?thesis by blast
qed

subsection \<open>Descriptions of the groups\<close>

text \<open>
  C6, as the specification states it: the labels of a group are all the labels that any
  accepted row attaches to a member. With two accepted rows for the same pair of codes,
  the first labelled \<open>Tab\<close> and \<open>Cap\<close>, the second \<open>Tab\<close> and \<open>Tab\<close>, these labels are
  \<open>Cap\<close> and \<open>Tab\<close> and the description would be \<open>Cap / Tab\<close>. The code keeps one label
  for each code, that of the last row: the group has the one label \<open>Tab\<close> and no
  description.
\<close>

theorem all_labels_counterexample:
  "read_formulation_swaps_file
     [\<lparr>Code = ''040702040AAACAC'', Alternative_code = ''040702040AAAHAH'',
       Formulation = ''Tab'', Alternative_formulation = ''Cap'', Really_equivalent = ''Y''\<rparr>,
      \<lparr>Code = ''040702040AAACAC'', Alternative_code = ''040702040AAAHAH'',
       Formulation = ''Tab'', Alternative_formulation = ''Tab'', Really_equivalent = ''Y''\<rparr>]
     = Inr [([''040702040AAACAC'', ''040702040AAAHAH''], [''Tab''])]
   \<and> sort (all_labels
        [\<lparr>Code = ''040702040AAACAC'', Alternative_code = ''040702040AAAHAH'',
          Formulation = ''Tab'', Alternative_formulation = ''Cap'', Really_equivalent = ''Y''\<rparr>,
         \<lparr>Code = ''040702040AAACAC'', Alternative_code = ''040702040AAAHAH'',
          Formulation = ''Tab'', Alternative_formulation = ''Tab'', Really_equivalent = ''Y''\<rparr>]
        [''040702040AAACAC'', ''040702040AAAHAH''])
     = [''Cap'', ''Tab'']
   \<and> join '' / '' (sort (all_labels
        [\<lparr>Code = ''040702040AAACAC'', Alternative_code = ''040702040AAAHAH'',
          Formulation = ''Tab'', Alternative_formulation = ''Cap'', Really_equivalent = ''Y''\<rparr>,
         \<lparr>Code = ''040702040AAACAC'', Alternative_code = ''040702040AAAHAH'',
          Formulation = ''Tab'', Alternative_formulation = ''Tab'', Really_equivalent = ''Y''\<rparr>]
        [''040702040AAACAC'', ''040702040AAAHAH'']))
     = ''Cap / Tab''
   \<and> description_for
        [\<lparr>Code = ''040702040AAACAC'', Alternative_code = ''040702040AAAHAH'',
          Formulation = ''Tab'', Alternative_formulation = ''Cap'', Really_equivalent = ''Y''\<rparr>,
         \<lparr>Code = ''040702040AAACAC'', Alternative_code = ''040702040AAAHAH'',
          Formulation = ''Tab'', Alternative_formulation = ''Tab'', Really_equivalent = ''Y''\<rparr>]
        ''040702040AAACAC''
     = Inr None"
  by (simp add: eval_defs description_for_def all_labels_def accepted_def)

text \<open>
  C6, amended: the label of a member of a group is the one that the last accepted row
  naming the member gives it (its formulation as code, its alternative formulation as
  alternative code). For every group that the loader produces, the distinct non-empty
  labels of its members are collected; if there is more than one, the description of the
  primary code is these labels sorted and joined by \<open> / \<close>; otherwise the group gets no
  description.
\<close>

theorem descriptions_from_last_labels:
  assumes "read_formulation_swaps_file data = Inr code_groups" and "g \<in> set code_groups"
  shows "\<exists>swaps descs p rest.
           get_formulation_swaps data = Inr (swaps, descs) \<and> sort (fst g) = p # rest
           \<and> set (snd g) = labels_of data (set (fst g))
           \<and> descs p =
               (if 1 < card (labels_of data (set (fst g)))
                then Some (join '' / '' (sorted_list_of_set (labels_of data (set (fst g)))))
                else None)"
proof -
  from assms(1) have valid: "\<forall>row \<in> set data. accepted row \<longrightarrow> valid_row row"
    using loaded_valid by blast
  let ?E = "swap_edges data"
  let ?p = "Min (set (fst g))"
  note comp = loader_good_groups(1)[OF valid assms(1)]
  from loader_good_groups(2)[OF valid assms(1) assms(2)]
  have lab: "set (snd g) = labels_of data (set (fst g))"
    by (simp add: good_group_def)
  from assms(2) have m: "fst g \<in> set (map fst code_groups)" by simp
  note ne = components_groups(1)[OF comp m]
  note sub = components_groups(2)[OF comp m]
  note cls = components_groups(3)[OF comp m]
  from sort_Min[OF ne] obtain rest where s: "sort (fst g) = ?p # rest" by blast
  have pin: "?p \<in> set (fst g)" using ne by (intro Min_in) auto
  from cls[OF pin] have c: "conn ?E `` {?p} = set (fst g)" by simp
  from pin sub have pf: "?p \<in> Field ?E" by blast
  have "\<exists>v. v \<in> Field ?E \<and> Min (conn ?E `` {v}) = ?p"
    using pf c by (intro exI[of _ ?p]) simp
  then have "descriptions_of data ?p =
               (if 1 < card (labels_of data (set (fst g)))
                then Some (join '' / '' (sorted_list_of_set (labels_of data (set (fst g)))))
                else None)"
    unfolding descriptions_of_def c by simp
  with gfs_valid[OF valid] s lab show ?thesis by blast
qed

theorem descriptions_from_last_labels_witness:
  "read_formulation_swaps_file
     [\<lparr>Code = ''040702040AAACAC'', Alternative_code = ''040702040AAAHAH'',
       Formulation = ''Tab'', Alternative_formulation = ''Cap'', Really_equivalent = ''Y''\<rparr>]
     = Inr [([''040702040AAACAC'', ''040702040AAAHAH''], [''Tab'', ''Cap''])]
   \<and> labels_of
        [\<lparr>Code = ''040702040AAACAC'', Alternative_code = ''040702040AAAHAH'',
          Formulation = ''Tab'', Alternative_formulation = ''Cap'', Really_equivalent = ''Y''\<rparr>]
        (set [''040702040AAACAC'', ''040702040AAAHAH''])
     = {''Tab'', ''Cap''}
   \<and> description_for
        [\<lparr>Code = ''040702040AAACAC'', Alternative_code = ''040702040AAAHAH'',
          Formulation = ''Tab'', Alternative_formulation = ''Cap'', Really_equivalent = ''Y''\<rparr>]
        ''040702040AAACAC''
     = Inr (Some ''Cap / Tab'')"
proof -
  let ?d = "[\<lparr>Code = ''040702040AAACAC'', Alternative_code = ''040702040AAAHAH'',
       Formulation = ''Tab'', Alternative_formulation = ''Cap'', Really_equivalent = ''Y''\<rparr>]"
  let ?g = "([''040702040AAACAC'', ''040702040AAAHAH''], [''Tab'', ''Cap''])"
  have r: "read_formulation_swaps_file ?d = Inr [?g]"
    by (simp add: eval_defs)
  have "?g \<in> set [?g]" by simp
  from descriptions_from_last_labels[OF r this] obtain swaps descs p rest where
    g: "get_formulation_swaps ?d = Inr (swaps, descs)"
    and s: "sort (fst ?g) = p # rest"
    and l: "set (snd ?g) = labels_of ?d (set (fst ?g))"
    and d: "descs p = (if 1 < card (labels_of ?d (set (fst ?g)))
                then Some (join '' / '' (sorted_list_of_set (labels_of ?d (set (fst ?g)))))
                else None)"
    by blast
  from s have p: "p = ''040702040AAACAC''" by simp
  from l have l': "labels_of ?d (set [''040702040AAACAC'', ''040702040AAAHAH'']) = set [''Tab'', ''Cap'']"
    by (simp only: fst_conv snd_conv)
  have c: "card (set [''Tab'', ''Cap'']) = 2" by simp
  have j: "sorted_list_of_set (set [''Tab'', ''Cap'']) = [''Cap'', ''Tab'']"
    by (simp add: sorted_list_of_set_sort_remdups)
  from d have "descs ''040702040AAACAC'' = Some ''Cap / Tab''"
    unfolding p fst_conv l' c j by simp
  with g have "description_for ?d ''040702040AAACAC'' = Inr (Some ''Cap / Tab'')"
    by (simp add: description_for_def)
  with r l' show ?thesis by simp
qed

section \<open>The substitution set builder: properties\<close>

lemma map_of_append_to:
  "map_of (append_to k v d) = (map_of d)(k \<mapsto> (case map_of d k of None \<Rightarrow> [] | Some xs \<Rightarrow> xs) @ [v])"
  by (simp add: append_to_def update_conv')

lemma distinct_append_to:
  "distinct (map fst d) \<Longrightarrow> distinct (map fst (append_to k v d))"
  by (simp add: append_to_def distinct_update)

lemma collect_Cons:
  "collect swaps (b # codes) ps =
     (case grouping_key swaps b of
        None \<Rightarrow> collect swaps codes ps
      | Some k \<Rightarrow> collect swaps codes (append_to k b ps))"
  by (simp add: grouping_key_def split: option.splits)

lemma collect_char:
  "distinct (map fst ps) \<Longrightarrow>
     distinct (map fst (collect swaps codes ps)) \<and>
     (\<forall>k. map_of (collect swaps codes ps) k =
        (case map_of ps k of
           None \<Rightarrow> (if filter (\<lambda>c. grouping_key swaps c = Some k) codes = [] then None
                     else Some (filter (\<lambda>c. grouping_key swaps c = Some k) codes))
         | Some old \<Rightarrow> Some (old @ filter (\<lambda>c. grouping_key swaps c = Some k) codes)))"
proof (induction codes arbitrary: ps)
  case Nil
  then show ?case by (simp split: option.splits)
next
  case (Cons b codes)
  show ?case
  proof (cases "grouping_key swaps b")
    case None
    with Cons.IH[OF Cons.prems] show ?thesis
      by (simp only: collect_Cons) (auto split: option.splits)
  next
    case (Some k0)
    have d: "distinct (map fst (append_to k0 b ps))"
      using Cons.prems by (rule distinct_append_to)
    have c: "collect swaps (b # codes) ps = collect swaps codes (append_to k0 b ps)"
      by (simp only: collect_Cons Some option.case)
    let ?F = "\<lambda>k xs. filter (\<lambda>c. grouping_key swaps c = Some k) xs"
    from Cons.IH[OF d] have d': "distinct (map fst (collect swaps codes (append_to k0 b ps)))"
      and m: "\<And>k. map_of (collect swaps codes (append_to k0 b ps)) k =
        (case map_of (append_to k0 b ps) k of
           None \<Rightarrow> (if ?F k codes = [] then None else Some (?F k codes))
         | Some old \<Rightarrow> Some (old @ ?F k codes))"
      by blast+
    have "map_of (collect swaps codes (append_to k0 b ps)) k =
        (case map_of ps k of
           None \<Rightarrow> (if ?F k (b # codes) = [] then None else Some (?F k (b # codes)))
         | Some old \<Rightarrow> Some (old @ ?F k (b # codes)))" for k
    proof (cases "k = k0")
      case True
      then show ?thesis
        unfolding m by (simp add: map_of_append_to Some split: option.splits)
    next
      case False
      then have "grouping_key swaps b \<noteq> Some k" using Some by simp
      then show ?thesis
        unfolding m using False by (simp add: map_of_append_to split: option.splits)
    qed
    with d' show ?thesis unfolding c by blast
  qed
qed

lemma collect_entries:
  assumes "(k, pres) \<in> set (collect swaps codes [])"
  shows "pres = filter (\<lambda>c. grouping_key swaps c = Some k) codes" and "pres \<noteq> []"
proof -
  from collect_char[of "[]" swaps codes]
  have d: "distinct (map fst (collect swaps codes []))"
    and m: "\<And>k. map_of (collect swaps codes []) k =
        (if filter (\<lambda>c. grouping_key swaps c = Some k) codes = [] then None
         else Some (filter (\<lambda>c. grouping_key swaps c = Some k) codes))"
    by simp_all
  from assms d have "map_of (collect swaps codes []) k = Some pres" by simp
  with m[of k] show "pres = filter (\<lambda>c. grouping_key swaps c = Some k) codes" and "pres \<noteq> []"
    by (auto split: if_splits)
qed

lemma count_list_filter:
  "count_list (filter P xs) c = (if P c then count_list xs c else 0)"
  by (induction xs) auto

lemma count_list_sort:
  fixes xs :: "'a::linorder list"
  shows "count_list (sort xs) c = count_list xs c"
proof -
  have "count (mset (sort xs)) c = count (mset xs) c" by simp
  then show ?thesis by (simp only: count_mset)
qed

lemma builder_sets:
  assumes "get_substitution_sets_from_bnf_codes data names bnf_codes = Inr sets"
    and "s \<in> set sets"
  shows "\<exists>swaps descs pres. get_formulation_swaps data = Inr (swaps, descs)
           \<and> pres = filter (\<lambda>c. grouping_key swaps c = Some (id' s)) bnf_codes
           \<and> 1 < length pres \<and> presentations s = sort pres
           \<and> formulation_swaps s = descs (id' s)"
proof -
  from assms(1) obtain swaps descs where g: "get_formulation_swaps data = Inr (swaps, descs)"
    by (auto simp: get_substitution_sets_from_bnf_codes_def split: sum.splits)
  with assms obtain k pres where e: "(k, pres) \<in> set (collect swaps bnf_codes [])"
    and l: "1 < length pres" and s: "id' s = k" "presentations s = sort pres"
       "formulation_swaps s = descs k"
    by (auto simp: get_substitution_sets_from_bnf_codes_def Let_def)
  from collect_entries(1)[OF e] g l s show ?thesis by auto
qed

lemma generic_equivalent_nonempty:
  "generic_equivalent_for_bnf_code c = Some g \<Longrightarrow> g \<noteq> []"
  by (auto simp: generic_equivalent_for_bnf_code_def Let_def split: if_splits)

lemma builder_has_set:
  assumes b: "get_substitution_sets_from_bnf_codes data names bnf_codes = Inr sets"
    and g: "get_formulation_swaps data = Inr (swaps, descs)"
    and l: "1 < length (filter (\<lambda>c. grouping_key swaps c = Some k) bnf_codes)"
  shows "\<exists>s \<in> set sets. id' s = k
           \<and> presentations s = sort (filter (\<lambda>c. grouping_key swaps c = Some k) bnf_codes)"
proof -
  let ?pres = "filter (\<lambda>c. grouping_key swaps c = Some k) bnf_codes"
  from l have "?pres \<noteq> []" by auto
  with collect_char[of "[]" swaps bnf_codes]
  have "map_of (collect swaps bnf_codes []) k = Some ?pres" by simp
  then have "(k, ?pres) \<in> set (collect swaps bnf_codes [])" by (rule map_of_SomeD)
  with l have "(k, ?pres) \<in> set (filter (\<lambda>(code, presentations). 1 < length presentations)
                                  (collect swaps bnf_codes []))"
    by simp
  then show ?thesis
    using b g by (force simp: get_substitution_sets_from_bnf_codes_def Let_def)
qed

text \<open>
  C9. Every substitution set of the builder's output has at least two presentations,
  and the input codes are not deduplicated: a code of a set occurs in its presentations
  as many times as in the input list, and a code with a generic equivalent that occurs
  twice or more in the input list has a set in which it occurs as many times.
\<close>

theorem at_least_two_presentations:
  "get_substitution_sets_from_bnf_codes data names bnf_codes = Inr sets \<Longrightarrow>
     (\<forall>s \<in> set sets. 2 \<le> length (presentations s)
        \<and> (\<forall>c \<in> set (presentations s).
              count_list (presentations s) c = count_list bnf_codes c))
     \<and> (\<forall>c. generic_equivalent_for_bnf_code c \<noteq> None \<and> 2 \<le> count_list bnf_codes c \<longrightarrow>
            (\<exists>s \<in> set sets. count_list (presentations s) c = count_list bnf_codes c))"
proof (intro conjI ballI allI impI)
  fix s assume a: "get_substitution_sets_from_bnf_codes data names bnf_codes = Inr sets"
    and s: "s \<in> set sets"
  from builder_sets[OF a s] obtain swaps pres where
    p: "pres = filter (\<lambda>c. grouping_key swaps c = Some (id' s)) bnf_codes"
    and l: "1 < length pres" and ps: "presentations s = sort pres"
    by blast
  from l ps show "2 \<le> length (presentations s)" by simp
  fix c assume "c \<in> set (presentations s)"
  with ps p have "grouping_key swaps c = Some (id' s)" by auto
  then show "count_list (presentations s) c = count_list bnf_codes c"
    unfolding ps count_list_sort p count_list_filter by simp
next
  fix c assume a: "get_substitution_sets_from_bnf_codes data names bnf_codes = Inr sets"
    and c: "generic_equivalent_for_bnf_code c \<noteq> None \<and> 2 \<le> count_list bnf_codes c"
  from a obtain swaps descs where g: "get_formulation_swaps data = Inr (swaps, descs)"
    by (auto simp: get_substitution_sets_from_bnf_codes_def split: sum.splits)
  from c obtain gc where gc: "generic_equivalent_for_bnf_code c = Some gc" by auto
  let ?k = "dict_get swaps gc gc"
  let ?pres = "filter (\<lambda>c. grouping_key swaps c = Some ?k) bnf_codes"
  have k: "grouping_key swaps c = Some ?k"
    using gc generic_equivalent_nonempty[OF gc] by (simp add: grouping_key_def)
  then have cnt: "count_list ?pres c = count_list bnf_codes c"
    by (simp add: count_list_filter)
  have "count_list ?pres c \<le> length ?pres" by (rule count_le_length)
  with cnt c have "1 < length ?pres" by simp
  from builder_has_set[OF a g this] obtain s where s: "s \<in> set sets"
    and ps: "presentations s = sort ?pres" by blast
  have "count_list (presentations s) c = count_list bnf_codes c"
    unfolding ps count_list_sort by (rule cnt)
  with s show "\<exists>s \<in> set sets. count_list (presentations s) c = count_list bnf_codes c"
    by (rule bexI[rotated])
qed

theorem at_least_two_presentations_witness:
  "get_substitution_sets_from_bnf_codes
     [\<lparr>Code = ''040702040AAACAC'', Alternative_code = ''040702040AAAHAH'',
       Formulation = ''Tab'', Alternative_formulation = ''Cap'', Really_equivalent = ''Y''\<rparr>]
     (\<lambda>_. Map.empty)
     [''040702040BBAHAH'', ''040702040AAACAC'', ''040702040BBAHAH'', ''0407020400000A0'',
      ''0601060U0BBACA0'']
   = Inr [\<lparr>id' = ''040702040AAACAC'',
           presentations = [''040702040AAACAC'', ''040702040BBAHAH'', ''040702040BBAHAH''],
           name = ''unknown'', formulation_swaps = Some ''Cap / Tab''\<rparr>]
   \<and> count_list [''040702040AAACAC'', ''040702040BBAHAH'', ''040702040BBAHAH''] ''040702040BBAHAH''
     = count_list [''040702040BBAHAH'', ''040702040AAACAC'', ''040702040BBAHAH'',
         ''0407020400000A0'', ''0601060U0BBACA0''] ''040702040BBAHAH''
   \<and> 2 \<le> length [''040702040AAACAC'', ''040702040BBAHAH'', ''040702040BBAHAH'']"
proof -
  let ?d = "[\<lparr>Code = ''040702040AAACAC'', Alternative_code = ''040702040AAAHAH'',
       Formulation = ''Tab'', Alternative_formulation = ''Cap'', Really_equivalent = ''Y''\<rparr>]"
  let ?codes = "[''040702040BBAHAH'', ''040702040AAACAC'', ''040702040BBAHAH'',
      ''0407020400000A0'', ''0601060U0BBACA0'']"
  let ?s = "\<lparr>id' = ''040702040AAACAC'',
           presentations = [''040702040AAACAC'', ''040702040BBAHAH'', ''040702040BBAHAH''],
           name = ''unknown'', formulation_swaps = Some ''Cap / Tab''\<rparr>"
  have g: "get_formulation_swaps ?d
     = Inr ([''040702040AAACAC'' \<mapsto> ''040702040AAACAC'', ''040702040AAAHAH'' \<mapsto> ''040702040AAACAC''],
            [''040702040AAACAC'' \<mapsto> ''Cap / Tab''])"
    by (simp add: eval_defs)
  have b: "get_substitution_sets_from_bnf_codes ?d (\<lambda>_. Map.empty) ?codes = Inr [?s]"
    by (simp add: get_substitution_sets_from_bnf_codes_def g generic_equivalent_for_bnf_code_def
        re_match_def EXCLUSIONS_RE_def slice_def GENERIC_SUB_PARAGRAPHS_def dict_get_def
        append_to_def get_names_for_bnf_codes_def Let_def)
  from at_least_two_presentations[OF b, THEN conjunct1] have
    "2 \<le> length (presentations ?s)
      \<and> (\<forall>c \<in> set (presentations ?s). count_list (presentations ?s) c = count_list ?codes c)"
    by simp
  then have "2 \<le> length [''040702040AAACAC'', ''040702040BBAHAH'', ''040702040BBAHAH'']"
    and "count_list [''040702040AAACAC'', ''040702040BBAHAH'', ''040702040BBAHAH''] ''040702040BBAHAH''
         = count_list ?codes ''040702040BBAHAH''"
    by simp_all
  with b show ?thesis by blast
qed

subsection \<open>Remapping through the swaps\<close>

text \<open>
  C10. In the swaps map that \<^verbatim>\<open>get_formulation_swaps\<close> returns, every primary code is
  mapped to itself, so \<^verbatim>\<open>swaps.get(x, x)\<close> is idempotent: applying it twice gives what
  applying it once gives. The one remapping pass of the builder therefore reaches a fixed
  point: the id of every substitution set is left unchanged by a second remapping.
\<close>

theorem swaps_fixed_point:
  "get_formulation_swaps data = Inr (swaps, descs) \<Longrightarrow>
     (\<forall>c p. swaps c = Some p \<longrightarrow> swaps p = Some p) \<and>
     (\<forall>g. dict_get swaps (dict_get swaps g g) (dict_get swaps g g) = dict_get swaps g g) \<and>
     (\<forall>names bnf_codes sets.
        get_substitution_sets_from_bnf_codes data names bnf_codes = Inr sets \<longrightarrow>
        (\<forall>s \<in> set sets. dict_get swaps (id' s) (id' s) = id' s))"
proof -
  assume g: "get_formulation_swaps data = Inr (swaps, descs)"
  then have valid: "\<forall>row \<in> set data. accepted row \<longrightarrow> valid_row row"
    using loaded_valid by blast
  from gfs_valid[OF valid] g have sw: "swaps = swaps_of data" by simp
  have fixed: "swaps p = Some p" if "swaps c = Some p" for c p
    using that swaps_of_Some(3) unfolding sw by blast
  have idem: "dict_get swaps (dict_get swaps g g) (dict_get swaps g g) = dict_get swaps g g" for g
    by (cases "swaps g") (auto simp: dict_get_def dest: fixed)
  have "dict_get swaps (id' s) (id' s) = id' s"
    if b: "get_substitution_sets_from_bnf_codes data names bnf_codes = Inr sets"
      and s: "s \<in> set sets" for names bnf_codes sets s
  proof -
    from builder_sets[OF b s] g obtain pres where
      p: "pres = filter (\<lambda>c. grouping_key swaps c = Some (id' s)) bnf_codes"
      and l: "1 < length pres"
      by auto
    from l obtain c where "c \<in> set pres" by (cases pres) auto
    with p have "grouping_key swaps c = Some (id' s)" by simp
    then obtain gc where "dict_get swaps gc gc = id' s"
      by (auto simp: grouping_key_def split: option.splits if_splits)
    with idem[of gc] show ?thesis by simp
  qed
  with fixed idem show ?thesis by blast
qed

theorem swaps_fixed_point_witness:
  "get_formulation_swaps
     [\<lparr>Code = ''040702040AAAHAH'', Alternative_code = ''040702040AAACAC'',
       Formulation = ''Cap'', Alternative_formulation = ''Tab'', Really_equivalent = ''Y''\<rparr>]
     = Inr ([''040702040AAAHAH'' \<mapsto> ''040702040AAACAC'', ''040702040AAACAC'' \<mapsto> ''040702040AAACAC''],
            [''040702040AAACAC'' \<mapsto> ''Cap / Tab''])
   \<and> [''040702040AAAHAH'' \<mapsto> ''040702040AAACAC'', ''040702040AAACAC'' \<mapsto> ''040702040AAACAC'']
        ''040702040AAACAC'' = Some ''040702040AAACAC''
   \<and> dict_get [''040702040AAAHAH'' \<mapsto> ''040702040AAACAC'', ''040702040AAACAC'' \<mapsto> ''040702040AAACAC'']
        (dict_get [''040702040AAAHAH'' \<mapsto> ''040702040AAACAC'', ''040702040AAACAC'' \<mapsto> ''040702040AAACAC'']
           ''040702040AAAHAH'' ''040702040AAAHAH'')
        (dict_get [''040702040AAAHAH'' \<mapsto> ''040702040AAACAC'', ''040702040AAACAC'' \<mapsto> ''040702040AAACAC'']
           ''040702040AAAHAH'' ''040702040AAAHAH'')
     = ''040702040AAACAC''"
proof -
  let ?d = "[\<lparr>Code = ''040702040AAAHAH'', Alternative_code = ''040702040AAACAC'',
       Formulation = ''Cap'', Alternative_formulation = ''Tab'', Really_equivalent = ''Y''\<rparr>]"
  let ?sw = "[''040702040AAAHAH'' \<mapsto> ''040702040AAACAC'', ''040702040AAACAC'' \<mapsto> ''040702040AAACAC'']"
  have g: "get_formulation_swaps ?d = Inr (?sw, [''040702040AAACAC'' \<mapsto> ''Cap / Tab''])"
    by (simp add: eval_defs)
  have h: "?sw ''040702040AAAHAH'' = Some ''040702040AAACAC''"
    by simp
  from swaps_fixed_point[OF g] have
    a: "\<forall>c p. ?sw c = Some p \<longrightarrow> ?sw p = Some p"
    and b: "\<forall>g. dict_get ?sw (dict_get ?sw g g) (dict_get ?sw g g) = dict_get ?sw g g"
    by blast+
  from a h have a': "?sw ''040702040AAACAC'' = Some ''040702040AAACAC''"
    by blast
  have "dict_get ?sw ''040702040AAAHAH'' ''040702040AAAHAH'' = ''040702040AAACAC''"
    using h by (simp only: dict_get_def option.case)
  with b[rule_format, of "''040702040AAAHAH''"]
  have "dict_get ?sw (dict_get ?sw ''040702040AAAHAH'' ''040702040AAAHAH'')
          (dict_get ?sw ''040702040AAAHAH'' ''040702040AAAHAH'') = ''040702040AAACAC''"
    by (simp only:)
  with g a' show ?thesis by blast
qed

subsection \<open>End to end\<close>

lemma builder_cong:
  assumes "read_rows data [] Map.empty = read_rows data' [] Map.empty"
  shows "get_substitution_sets_from_bnf_codes data names bnf_codes
           = get_substitution_sets_from_bnf_codes data' names bnf_codes"
  using assms
  by (simp add: get_substitution_sets_from_bnf_codes_def get_formulation_swaps_def
      read_formulation_swaps_file_def)

text \<open>
  C1. Given the codes \<open>040702040AAACAC\<close> and \<open>040702040AAAHAH\<close> and a swap file whose
  only accepted row has, once trimmed, the code \<open>040702040AAACAC\<close>, the alternative code
  \<open>040702040AAAHAH\<close> and the formulations \<open>Tab\<close> and \<open>Cap\<close>, the builder returns exactly
  one substitution set: its id is \<open>040702040AAACAC\<close>, its presentations are the two
  codes, sorted, and its formulation swaps are \<open>Cap / Tab\<close>. Its name is what the name
  resolver gives for the id, \<open>unknown\<close> when it gives none.
\<close>

theorem end_to_end:
  assumes "filter accepted data = [row]"
    and "strip (Code row) = ''040702040AAACAC''"
    and "strip (Alternative_code row) = ''040702040AAAHAH''"
    and "strip (Formulation row) = ''Tab''"
    and "strip (Alternative_formulation row) = ''Cap''"
  shows "get_substitution_sets_from_bnf_codes data names
           [''040702040AAACAC'', ''040702040AAAHAH'']
         = Inr [\<lparr>id' = ''040702040AAACAC'',
                 presentations = [''040702040AAACAC'', ''040702040AAAHAH''],
                 name = dict_get (names [''040702040AAACAC'']) ''040702040AAACAC'' ''unknown'',
                 formulation_swaps = Some ''Cap / Tab''\<rparr>]"
proof -
  let ?r = "\<lparr>Code = ''040702040AAACAC'', Alternative_code = ''040702040AAAHAH'',
             Formulation = ''Tab'', Alternative_formulation = ''Cap'',
             Really_equivalent = ''Y''\<rparr>"
  have g: "generic_equivalent_for_bnf_code ''040702040AAACAC'' = Some ''040702040AAACAC''"
    "generic_equivalent_for_bnf_code ''040702040AAAHAH'' = Some ''040702040AAAHAH''"
    by (simp_all add: generic_equivalent_for_bnf_code_def re_match_def EXCLUSIONS_RE_def
        slice_def)
  have "row \<in> set (filter accepted data)"
    unfolding assms(1) by simp
  then have acc: "strip (Really_equivalent row) = ''Y''"
    by (simp add: accepted_def)
  have "read_rows data [] Map.empty = read_rows [row] [] Map.empty"
    using read_rows_filter[of data "[]" Map.empty] assms(1) by simp
  also have "\<dots> = Inr ([(''040702040AAACAC'', ''040702040AAAHAH'')],
                        [''040702040AAACAC'' \<mapsto> ''Tab'', ''040702040AAAHAH'' \<mapsto> ''Cap''])"
    by (simp add: acc assms(2-5) g Let_def)
  also have "\<dots> = read_rows [?r] [] Map.empty"
    by (simp add: g Let_def strip_def is_space_def)
  finally have "get_substitution_sets_from_bnf_codes data names
                  [''040702040AAACAC'', ''040702040AAAHAH'']
                = get_substitution_sets_from_bnf_codes [?r] names
                  [''040702040AAACAC'', ''040702040AAAHAH'']"
    by (rule builder_cong)
  also have "\<dots> = Inr [\<lparr>id' = ''040702040AAACAC'',
                 presentations = [''040702040AAACAC'', ''040702040AAAHAH''],
                 name = dict_get (names [''040702040AAACAC'']) ''040702040AAACAC'' ''unknown'',
                 formulation_swaps = Some ''Cap / Tab''\<rparr>]"
  proof -
    have s: "get_formulation_swaps [?r]
     = Inr ([''040702040AAACAC'' \<mapsto> ''040702040AAACAC'', ''040702040AAAHAH'' \<mapsto> ''040702040AAACAC''],
            [''040702040AAACAC'' \<mapsto> ''Cap / Tab''])"
      by (simp add: eval_defs)
    show ?thesis
      by (simp add: get_substitution_sets_from_bnf_codes_def s g GENERIC_SUB_PARAGRAPHS_def
          dict_get_def append_to_def get_names_for_bnf_codes_def Let_def)
  qed
  finally show ?thesis .
qed

theorem end_to_end_witness:
  "filter accepted
     [\<lparr>Code = ''040702040BBACAC'', Alternative_code = ''040702040AAAHAH'',
       Formulation = ''Tab'', Alternative_formulation = ''Cap'', Really_equivalent = ''N''\<rparr>,
      \<lparr>Code = '' 040702040AAACAC'', Alternative_code = ''040702040AAAHAH '',
       Formulation = ''Tab '', Alternative_formulation = '' Cap'', Really_equivalent = '' Y''\<rparr>]
   = [\<lparr>Code = '' 040702040AAACAC'', Alternative_code = ''040702040AAAHAH '',
       Formulation = ''Tab '', Alternative_formulation = '' Cap'', Really_equivalent = '' Y''\<rparr>]
   \<and> get_substitution_sets_from_bnf_codes
     [\<lparr>Code = ''040702040BBACAC'', Alternative_code = ''040702040AAAHAH'',
       Formulation = ''Tab'', Alternative_formulation = ''Cap'', Really_equivalent = ''N''\<rparr>,
      \<lparr>Code = '' 040702040AAACAC'', Alternative_code = ''040702040AAAHAH '',
       Formulation = ''Tab '', Alternative_formulation = '' Cap'', Really_equivalent = '' Y''\<rparr>]
     (\<lambda>_. Map.empty)
     [''040702040AAACAC'', ''040702040AAAHAH'']
   = Inr [\<lparr>id' = ''040702040AAACAC'',
           presentations = [''040702040AAACAC'', ''040702040AAAHAH''],
           name = ''unknown'',
           formulation_swaps = Some ''Cap / Tab''\<rparr>]"
proof -
  let ?n = "\<lparr>Code = ''040702040BBACAC'', Alternative_code = ''040702040AAAHAH'',
       Formulation = ''Tab'', Alternative_formulation = ''Cap'', Really_equivalent = ''N''\<rparr>"
  let ?r = "\<lparr>Code = '' 040702040AAACAC'', Alternative_code = ''040702040AAAHAH '',
       Formulation = ''Tab '', Alternative_formulation = '' Cap'', Really_equivalent = '' Y''\<rparr>"
  have f: "filter accepted [?n, ?r] = [?r]"
    by (simp add: accepted_def strip_def is_space_def)
  have a: "strip (Code ?r) = ''040702040AAACAC''"
    and b: "strip (Alternative_code ?r) = ''040702040AAAHAH''"
    and c: "strip (Formulation ?r) = ''Tab''"
    and d: "strip (Alternative_formulation ?r) = ''Cap''"
    by (simp_all add: strip_def is_space_def)
  from end_to_end[OF f a b c d, of "\<lambda>_. Map.empty"] f show ?thesis
    by (simp add: dict_get_def)
qed

end
